theory Spec2Isabelle
  imports Main "HOL-Library.AList"
begin

section \<open>A local data lake: catalog, registrar and query rewriter\<close>

text \<open>
  This theory embeds \<^verbatim>\<open>datalake.py\<close>. A Python string is a \<^typ>\<open>string\<close> whose
  characters are the code points 0 to 255; strings with higher code points are outside the
  type. Paths follow the POSIX flavour of \<^verbatim>\<open>pathlib\<close>.
\<close>

subsection \<open>Characters and words\<close>

text \<open>
  The class \<^verbatim>\<open>\w\<close> of a string pattern follows Unicode: the underscore and every
  alphanumeric character. Below 256 these are the ASCII digits and letters and 71 code
  points from 170 on: the ordinal indicators, the superscript digits, the micro sign, the
  vulgar fractions and the accented letters (the multiplication and the division sign,
  215 and 247, are not among them).
\<close>

definition is_word :: "char \<Rightarrow> bool" where
  "is_word c =
     (let n = (of_char c :: nat)
      in (48 \<le> n \<and> n \<le> 57) \<or> (65 \<le> n \<and> n \<le> 90) \<or> n = 95 \<or> (97 \<le> n \<and> n \<le> 122)
         \<or> n = 170 \<or> n = 178 \<or> n = 179 \<or> n = 181 \<or> n = 185 \<or> n = 186
         \<or> (188 \<le> n \<and> n \<le> 190) \<or> (192 \<le> n \<and> n \<le> 214) \<or> (216 \<le> n \<and> n \<le> 246)
         \<or> 248 \<le> n)"

text \<open>The neighbour of a position in the subject string: \<open>None\<close> at either end.\<close>

fun is_w :: "char option \<Rightarrow> bool" where
  "is_w None = False"
| "is_w (Some c) = is_word c"

fun first :: "string \<Rightarrow> char option" where
  "first [] = None"
| "first (c # cs) = Some c"

text \<open>\<^verbatim>\<open>\b\<close>: the position between \<open>p\<close> and \<open>n\<close> has a word character on exactly one side.\<close>

definition word_boundary :: "char option \<Rightarrow> char option \<Rightarrow> bool" where
  "word_boundary p n = (is_w p \<noteq> is_w n)"

subsection \<open>\<^verbatim>\<open>re.findall(r'\b\w+\b', sql)\<close>\<close>

text \<open>
  The scan tries each position from the left. At a position with a boundary before a word
  character the greedy \<^verbatim>\<open>\w+\<close> takes the whole run of word characters; the closing
  \<^verbatim>\<open>\b\<close> holds there, since the run is followed by a non-word character or the end. The
  scan resumes behind the match.
\<close>

function findall_words :: "char option \<Rightarrow> string \<Rightarrow> string list" where
  "findall_words prev [] = []"
| "findall_words prev (c # cs) =
     (if word_boundary prev (Some c) \<and> is_word c
      then takeWhile is_word (c # cs)
             # findall_words (Some (last (takeWhile is_word (c # cs)))) (dropWhile is_word (c # cs))
      else findall_words (Some c) cs)"
  by pat_completeness auto
termination
  by (relation "measure (\<lambda>(p, s). length s)") (auto simp: length_dropWhile_le less_Suc_eq_le)

subsection \<open>\<^verbatim>\<open>re.sub(rf'\b{name}\b', repl, sql)\<close>\<close>

text \<open>
  The names that reach the substitution are tokens of the scan above: non-empty strings of
  word characters, so the interpolated pattern is the literal name between two \<^verbatim>\<open>\b\<close>.
  \<open>matches_at\<close> says that the pattern matches at the head of the rest \<open>s\<close> of the subject,
  \<open>prev\<close> being the character before it.
\<close>

definition matches_at :: "string \<Rightarrow> char option \<Rightarrow> string \<Rightarrow> bool" where
  "matches_at name prev s =
     (name \<noteq> [] \<and> word_boundary prev (first s) \<and> take (length name) s = name
      \<and> word_boundary (Some (last name)) (first (drop (length name) s)))"

function sub_scan :: "string \<Rightarrow> string \<Rightarrow> char option \<Rightarrow> string \<Rightarrow> string" where
  "sub_scan name r prev [] = []"
| "sub_scan name r prev (c # cs) =
     (if matches_at name prev (c # cs)
      then r @ sub_scan name r (Some (last name)) (drop (length name) (c # cs))
      else c # sub_scan name r (Some c) cs)"
  by pat_completeness auto
termination
  by (relation "measure (\<lambda>(n, r, p, s). length s)") (auto simp: matches_at_def)

subsection \<open>Paths (\<^verbatim>\<open>pathlib\<close>, POSIX flavour)\<close>

text \<open>\<^verbatim>\<open>str.split(sep)\<close> for a one-character separator.\<close>

fun split_on :: "char \<Rightarrow> string \<Rightarrow> string list" where
  "split_on sep [] = [[]]"
| "split_on sep (c # cs) =
     (if c = sep then [] # split_on sep cs
      else (case split_on sep cs of [] \<Rightarrow> [[c]] | p # ps \<Rightarrow> (c # p) # ps))"

fun join_with :: "string \<Rightarrow> string list \<Rightarrow> string" where
  "join_with sep [] = []"
| "join_with sep [p] = p"
| "join_with sep (p # q # ps) = p @ sep @ join_with sep (q # ps)"

text \<open>
  A parsed path is its root (\<open>''''\<close>, \<open>''/''\<close> or \<open>''//''\<close>) and its components;
  \<^verbatim>\<open>splitroot\<close> keeps exactly two leading slashes and collapses any other number to one,
  and parsing drops empty components and \<open>''.''\<close>.
\<close>

type_synonym path = "string \<times> string list"

definition splitroot :: "string \<Rightarrow> string" where
  "splitroot s =
     (let k = length (takeWhile (\<lambda>c. c = CHR ''/'') s)
      in if k = 0 then [] else if k = 2 then ''//'' else ''/'')"

definition Path :: "string \<Rightarrow> path" where
  "Path s = (splitroot s, filter (\<lambda>x. x \<noteq> [] \<and> x \<noteq> ''.'') (split_on CHR ''/'' s))"

text \<open>The operator \<^verbatim>\<open>/\<close>: an anchored right operand replaces the left one.\<close>

definition path_join :: "path \<Rightarrow> string \<Rightarrow> path" where
  "path_join p s = (if fst (Path s) \<noteq> [] then Path s else (fst p, snd p @ snd (Path s)))"

definition path_str :: "path \<Rightarrow> string" where
  "path_str p = (let s = fst p @ join_with ''/'' (snd p) in if s = [] then ''.'' else s)"

text \<open>On POSIX \<^verbatim>\<open>as_posix\<close> replaces the separator \<open>/\<close> by itself.\<close>

definition as_posix :: "path \<Rightarrow> string" where
  "as_posix p = path_str p"

definition path_name :: "path \<Rightarrow> string" where
  "path_name p = (if snd p = [] then [] else last (snd p))"

text \<open>\<^verbatim>\<open>name.rfind('.')\<close>, as the number of characters behind the last dot.\<close>

definition suffix :: "path \<Rightarrow> string" where
  "suffix p =
     (let name = path_name p; tl_len = length (takeWhile (\<lambda>c. c \<noteq> CHR ''.'') (rev name))
      in if CHR ''.'' \<in> set name \<and> 0 < tl_len \<and> tl_len + 1 < length name
         then drop (length name - tl_len - 1) name else [])"

text \<open>\<^verbatim>\<open>str.lower\<close>: below 256 the capital letters are 65 to 90, 192 to 214 and 216 to 222.\<close>

definition lower_char :: "char \<Rightarrow> char" where
  "lower_char c =
     (let n = (of_char c :: nat)
      in if (65 \<le> n \<and> n \<le> 90) \<or> (192 \<le> n \<and> n \<le> 214) \<or> (216 \<le> n \<and> n \<le> 222)
         then char_of (n + 32) else c)"

definition lower :: "string \<Rightarrow> string" where
  "lower s = map lower_char s"

definition DATA_LAKE_ROOT :: path where
  "DATA_LAKE_ROOT = Path ''my-datalake''"

definition TABLES_DIR :: path where
  "TABLES_DIR = path_join DATA_LAKE_ROOT ''tables''"

definition METADATA_DIR :: path where
  "METADATA_DIR = path_join DATA_LAKE_ROOT ''metadata''"

definition CATALOG_FILE :: path where
  "CATALOG_FILE = path_join METADATA_DIR ''catalog.json''"

subsection \<open>Python values and exceptions\<close>

text \<open>
  The values the catalog document holds: \<^verbatim>\<open>None\<close>, integers, strings and dictionaries
  with string keys. A dictionary is an association list in insertion order with distinct
  keys; \<^const>\<open>map_of\<close> reads it and \<^const>\<open>AList.update\<close> assigns to a key (in place when the
  key is present, at the end otherwise).
\<close>

datatype json = JNull | JInt int | JStr string | JObj "(string \<times> json) list"

type_synonym catalog = "(string \<times> json) list"

datatype error =
    ValueError string
  | KeyError string
  | TypeError
  | AttributeError
  | CalledProcessError nat
  | FileNotFoundError
  | FileExistsError
  | NotADirectoryError
  | IsADirectoryError
  | SameFileError
  | JSONDecodeError
  | RegexError
  | EngineError
  | OSError

subsection \<open>The query rewriter\<close>

text \<open>
  A replacement without a backslash is inserted as it is. One with a backslash goes through
  the template compiler of \<^verbatim>\<open>re\<close>, which is not part of this program: it is the parameter
  \<open>tmpl\<close>, giving either an error or the expansion as a function of the matched text.
\<close>

type_synonym template = "string \<Rightarrow> error + (string \<Rightarrow> string)"

definition re_sub_word :: "template \<Rightarrow> string \<Rightarrow> string \<Rightarrow> string \<Rightarrow> error + string" where
  "re_sub_word tmpl name repl s =
     (if CHR 0x5C \<notin> set repl then Inr (sub_scan name repl None s)
      else (case tmpl repl of
              Inl e \<Rightarrow> Inl e
            | Inr f \<Rightarrow> Inr (sub_scan name (f name) None s)))"

text \<open>\<^verbatim>\<open>meta["file"]\<close>, as the operand of \<^verbatim>\<open>DATA_LAKE_ROOT / ...\<close>, which must be a string.\<close>

fun entry_file :: "json \<Rightarrow> error + string" where
  "entry_file (JObj kvs) =
     (case map_of kvs ''file'' of
        None \<Rightarrow> Inl (KeyError ''file'')
      | Some (JStr f) \<Rightarrow> Inr f
      | Some _ \<Rightarrow> Inl TypeError)"
| "entry_file _ = Inl TypeError"

definition quoted :: "string \<Rightarrow> string" where
  "quoted s = CHR 0x27 # s @ [CHR 0x27]"

definition matched_names :: "catalog \<Rightarrow> string \<Rightarrow> string set" where
  "matched_names catalog sql = set (map fst catalog) \<inter> set (findall_words None sql)"

text \<open>
  Python iterates a set in an order of its own choosing: \<open>order\<close> is that order, any
  enumeration of the matched names without repetition.
\<close>

definition iteration_order :: "string list \<Rightarrow> string set \<Rightarrow> bool" where
  "iteration_order order S = (distinct order \<and> set order = S)"

fun rewrite_loop :: "template \<Rightarrow> catalog \<Rightarrow> string list \<Rightarrow> string \<Rightarrow> error + string" where
  "rewrite_loop tmpl catalog [] sql = Inr sql"
| "rewrite_loop tmpl catalog (name # names) sql =
     (case map_of catalog name of
        None \<Rightarrow> Inl (KeyError name)
      | Some meta \<Rightarrow>
          (case entry_file meta of
             Inl e \<Rightarrow> Inl e
           | Inr f \<Rightarrow>
               (case re_sub_word tmpl name (quoted (as_posix (path_join DATA_LAKE_ROOT f))) sql of
                  Inl e \<Rightarrow> Inl e
                | Inr sql' \<Rightarrow> rewrite_loop tmpl catalog names sql')))"

text \<open>Lines 156 to 165 of \<^verbatim>\<open>query_sql\<close>: the SQL handed to the engine.\<close>

definition rewrite :: "template \<Rightarrow> catalog \<Rightarrow> string list \<Rightarrow> string \<Rightarrow> error + string" where
  "rewrite tmpl catalog order sql = rewrite_loop tmpl catalog order sql"

subsection \<open>The rewriting in one pass\<close>

text \<open>
  A whole-word occurrence of a name in a text is a maximal run of word characters that is
  the name. \<open>segs\<close> cuts a text into its maximal runs, of word characters and of other
  characters in turn.
\<close>

fun segs :: "string \<Rightarrow> string list" where
  "segs [] = []"
| "segs (c # cs) =
     (case segs cs of
        [] \<Rightarrow> [[c]]
      | g # gs \<Rightarrow> if is_word c = is_word (hd g) then (c # g) # gs else [c] # g # gs)"

text \<open>
  The text that stands for a table: the file path of its entry, joined to the storage root,
  in forward-slash form and in single quotes. There is none when the catalog has no such
  name or the entry has no file path.
\<close>

definition replacement :: "catalog \<Rightarrow> string \<Rightarrow> string option" where
  "replacement catalog name =
     (case map_of catalog name of
        None \<Rightarrow> None
      | Some meta \<Rightarrow>
          (case entry_file meta of
             Inl e \<Rightarrow> None
           | Inr f \<Rightarrow> Some (quoted (as_posix (path_join DATA_LAKE_ROOT f)))))"

text \<open>
  The rewriting as the specification words it: every whole-word occurrence of a matched
  name is replaced by the quoted path of its entry, and nothing else is changed.
\<close>

definition substitute :: "catalog \<Rightarrow> string set \<Rightarrow> string \<Rightarrow> string" where
  "substitute catalog names g =
     (if g \<in> names then (case replacement catalog g of Some r \<Rightarrow> r | None \<Rightarrow> g) else g)"

definition rewrite_spec :: "catalog \<Rightarrow> string \<Rightarrow> string" where
  "rewrite_spec catalog sql = concat (map (substitute catalog (matched_names catalog sql)) (segs sql))"

text \<open>
  The passes of the loop do not disturb one another when every name has a quoted path, no
  quoted path holds a backslash, and no quoted path holds another of the names as a
  whole word.
\<close>

definition independent :: "catalog \<Rightarrow> string list \<Rightarrow> bool" where
  "independent catalog names =
     (\<forall>a \<in> set names.
        case replacement catalog a of
          None \<Rightarrow> False
        | Some r \<Rightarrow> CHR 0x5C \<notin> set r \<and> (\<forall>b \<in> set names. b = a \<or> b \<notin> set (findall_words None r)))"

text \<open>
  Notions for the proofs: a text of word characters only, of other characters only, and
  one that starts and ends with a character that is no word character; a list of runs as
  \<open>segs\<close> gives it, and a list of blocks, where such fillers may stand for runs; and what
  one pass makes of a block.
\<close>

definition all_word :: "string \<Rightarrow> bool" where
  "all_word s = (s \<noteq> [] \<and> (\<forall>c \<in> set s. is_word c))"

definition all_other :: "string \<Rightarrow> bool" where
  "all_other s = (s \<noteq> [] \<and> (\<forall>c \<in> set s. \<not> is_word c))"

definition filler :: "string \<Rightarrow> bool" where
  "filler s = (s \<noteq> [] \<and> \<not> is_word (hd s) \<and> \<not> is_word (last s))"

fun runs_ok :: "string list \<Rightarrow> bool" where
  "runs_ok [] = True"
| "runs_ok (g # gs) =
     ((all_word g \<and> (gs = [] \<or> all_other (hd gs)) \<or> all_other g \<and> (gs = [] \<or> all_word (hd gs)))
      \<and> runs_ok gs)"

fun blocks_ok :: "string list \<Rightarrow> bool" where
  "blocks_ok [] = True"
| "blocks_ok (b # bs) =
     ((filler b \<or> all_word b \<and> (bs = [] \<or> filler (hd bs))) \<and> blocks_ok bs)"

definition pass_block :: "string \<Rightarrow> string \<Rightarrow> string \<Rightarrow> string" where
  "pass_block name r b =
     (if all_word b then (if b = name then r else b) else sub_scan name r None b)"

subsection \<open>The catalog document: \<^verbatim>\<open>json.dumps(catalog, indent=2)\<close>\<close>

text \<open>\<^verbatim>\<open>str(n)\<close> for an integer.\<close>

definition digit_char :: "nat \<Rightarrow> char" where
  "digit_char d = char_of (48 + d)"

function digits :: "nat \<Rightarrow> string" where
  "digits n = (if n < 10 then [digit_char n] else digits (n div 10) @ [digit_char (n mod 10)])"
  by pat_completeness auto
termination
  by (relation "measure id") auto

declare digits.simps [simp del]

definition show_int :: "int \<Rightarrow> string" where
  "show_int i = (if i < 0 then CHR ''-'' # digits (nat (- i)) else digits (nat i))"

text \<open>
  Strings are written with \<^verbatim>\<open>ensure_ascii\<close>: the quote, the backslash and the five named
  control characters get their two-character escapes, every other character outside the
  range from the space to the tilde becomes \<^verbatim>\<open>\u00xx\<close> with lower-case hexadecimal digits.
\<close>

definition hex_char :: "nat \<Rightarrow> char" where
  "hex_char d = (if d < 10 then char_of (48 + d) else char_of (87 + d))"

definition escape_char :: "char \<Rightarrow> string" where
  "escape_char c =
     (let n = (of_char c :: nat) in
      if n = 34 then [CHR 0x5C, CHR 0x22]
      else if n = 92 then [CHR 0x5C, CHR 0x5C]
      else if n = 10 then [CHR 0x5C, CHR ''n'']
      else if n = 13 then [CHR 0x5C, CHR ''r'']
      else if n = 9 then [CHR 0x5C, CHR ''t'']
      else if n = 8 then [CHR 0x5C, CHR ''b'']
      else if n = 12 then [CHR 0x5C, CHR ''f'']
      else if 32 \<le> n \<and> n \<le> 126 then [c]
      else [CHR 0x5C, CHR ''u'', CHR ''0'', CHR ''0'', hex_char (n div 16), hex_char (n mod 16)])"

definition encode_string :: "string \<Rightarrow> string" where
  "encode_string s = CHR 0x22 # concat (map escape_char s) @ [CHR 0x22]"

definition newline_indent :: "nat \<Rightarrow> string" where
  "newline_indent level = CHR 0x0A # replicate (2 * level) CHR '' ''"

text \<open>
  A dictionary at nesting level \<open>level\<close>: \<open>{}\<close> when empty, and otherwise its items on
  lines of their own, indented by two spaces per level, with \<open>'': ''\<close> behind the key and
  a comma between items.
\<close>

fun dumps_at :: "nat \<Rightarrow> json \<Rightarrow> string"
  and dumps_items :: "nat \<Rightarrow> (string \<times> json) list \<Rightarrow> string" where
  "dumps_at level JNull = ''null''"
| "dumps_at level (JInt i) = show_int i"
| "dumps_at level (JStr s) = encode_string s"
| "dumps_at level (JObj []) = ''{}''"
| "dumps_at level (JObj (kv # kvs)) =
     ''{'' @ newline_indent (Suc level) @ dumps_items (Suc level) (kv # kvs)
       @ newline_indent level @ ''}''"
| "dumps_items level [] = []"
| "dumps_items level [kv] = encode_string (fst kv) @ '': '' @ dumps_at level (snd kv)"
| "dumps_items level (kv # kv' # kvs) =
     encode_string (fst kv) @ '': '' @ dumps_at level (snd kv) @ '','' @ newline_indent level
       @ dumps_items level (kv' # kvs)"

definition json_dumps :: "json \<Rightarrow> string" where
  "json_dumps v = dumps_at 0 v"

subsection \<open>The catalog document: \<^verbatim>\<open>json.loads\<close>\<close>

text \<open>
  The decoder for the documents this program writes: objects, strings, integers and
  \<^verbatim>\<open>null\<close>. Arrays, booleans, fractions and exponents never occur in a catalog document
  and are outside the model (the decoder rejects them), as are \<^verbatim>\<open>\u\<close> escapes beyond
  code point 255. Every failure is a \<^verbatim>\<open>JSONDecodeError\<close>.
\<close>

definition is_ws :: "char \<Rightarrow> bool" where
  "is_ws c = (c = CHR '' '' \<or> c = CHR 0x09 \<or> c = CHR 0x0A \<or> c = CHR 0x0D)"

definition skip_ws :: "string \<Rightarrow> string" where
  "skip_ws s = dropWhile is_ws s"

definition hex_val :: "char \<Rightarrow> nat option" where
  "hex_val c =
     (let n = (of_char c :: nat) in
      if 48 \<le> n \<and> n \<le> 57 then Some (n - 48)
      else if 97 \<le> n \<and> n \<le> 102 then Some (n - 87)
      else if 65 \<le> n \<and> n \<le> 70 then Some (n - 55)
      else None)"

definition hex4 :: "char \<Rightarrow> char \<Rightarrow> char \<Rightarrow> char \<Rightarrow> nat option" where
  "hex4 a b c d =
     (case (hex_val a, hex_val b, hex_val c, hex_val d) of
        (Some w, Some x, Some y, Some z) \<Rightarrow> Some (((w * 16 + x) * 16 + y) * 16 + z)
      | _ \<Rightarrow> None)"

definition unescape :: "char \<Rightarrow> char option" where
  "unescape e =
     (if e = CHR 0x22 then Some (CHR 0x22)
      else if e = CHR 0x5C then Some (CHR 0x5C)
      else if e = CHR ''/'' then Some (CHR ''/'')
      else if e = CHR ''b'' then Some (CHR 0x08)
      else if e = CHR ''f'' then Some (CHR 0x0C)
      else if e = CHR ''n'' then Some (CHR 0x0A)
      else if e = CHR ''r'' then Some (CHR 0x0D)
      else if e = CHR ''t'' then Some (CHR 0x09)
      else None)"

definition cons_result :: "char \<Rightarrow> (string \<times> string) option \<Rightarrow> (string \<times> string) option" where
  "cons_result c r = (case r of None \<Rightarrow> None | Some (s, rest) \<Rightarrow> Some (c # s, rest))"

text \<open>The characters of a string literal behind its opening quote, up to the closing one.\<close>

fun scan_string :: "string \<Rightarrow> (string \<times> string) option" where
  "scan_string [] = None"
| "scan_string (c # cs) =
     (if c = CHR 0x22 then Some ([], cs)
      else if c = CHR 0x5C then
        (case cs of
           [] \<Rightarrow> None
         | e # r \<Rightarrow>
             if e = CHR ''u'' then
               (case r of
                  h1 # h2 # h3 # h4 # r' \<Rightarrow>
                    (case hex4 h1 h2 h3 h4 of
                       None \<Rightarrow> None
                     | Some n \<Rightarrow> if n < 256 then cons_result (char_of n) (scan_string r') else None)
                | _ \<Rightarrow> None)
             else (case unescape e of
                     None \<Rightarrow> None
                   | Some ch \<Rightarrow> cons_result ch (scan_string r)))
      else if (of_char c :: nat) < 32 then None
      else cons_result c (scan_string cs))"

definition is_digit :: "char \<Rightarrow> bool" where
  "is_digit c = (let n = (of_char c :: nat) in 48 \<le> n \<and> n \<le> 57)"

definition digits_val :: "string \<Rightarrow> nat" where
  "digits_val ds = foldl (\<lambda>acc c. 10 * acc + ((of_char c :: nat) - 48)) 0 ds"

text \<open>
  A number: an optional minus sign, then \<open>0\<close> or a digit sequence without a leading zero.
  A fraction or an exponent behind it would make a float, which the model rejects.
\<close>

definition scan_nat :: "string \<Rightarrow> (nat \<times> string) option" where
  "scan_nat s =
     (let ds = (if take 1 s = ''0'' then ''0'' else takeWhile is_digit s);
          rest = drop (length ds) s
      in if ds = [] \<or> take 1 rest = ''.'' \<or> take 1 rest = ''e'' \<or> take 1 rest = ''E'' then None
         else Some (digits_val ds, rest))"

definition scan_number :: "string \<Rightarrow> (json \<times> string) option" where
  "scan_number s =
     (case s of
        [] \<Rightarrow> None
      | c # cs \<Rightarrow>
          if c = CHR ''-'' then
            (case scan_nat cs of None \<Rightarrow> None | Some (n, rest) \<Rightarrow> Some (JInt (- int n), rest))
          else (case scan_nat s of None \<Rightarrow> None | Some (n, rest) \<Rightarrow> Some (JInt (int n), rest)))"

text \<open>\<^verbatim>\<open>dict(pairs)\<close>: a repeated key keeps its first position and its last value.\<close>

definition dict_of :: "(string \<times> json) list \<Rightarrow> (string \<times> json) list" where
  "dict_of pairs = foldl (\<lambda>d kv. AList.update (fst kv) (snd kv) d) [] pairs"

text \<open>
  The decoder recurses into nested values; \<open>fuel\<close> bounds the recursion and the length of
  the text is always enough. \<open>parse_members\<close> starts at the quote of a property name.
\<close>

fun parse_value :: "nat \<Rightarrow> string \<Rightarrow> (json \<times> string) option"
  and parse_members :: "nat \<Rightarrow> string \<Rightarrow> ((string \<times> json) list \<times> string) option" where
  "parse_value 0 s = None"
| "parse_value (Suc n) s =
     (case s of
        [] \<Rightarrow> None
      | c # cs \<Rightarrow>
          if c = CHR 0x22 then
            (case scan_string cs of None \<Rightarrow> None | Some (str, rest) \<Rightarrow> Some (JStr str, rest))
          else if c = CHR ''{'' then
            (case skip_ws cs of
               [] \<Rightarrow> None
             | d # ds \<Rightarrow>
                 if d = CHR ''}'' then Some (JObj [], ds)
                 else (case parse_members n (d # ds) of
                         None \<Rightarrow> None
                       | Some (pairs, rest) \<Rightarrow> Some (JObj (dict_of pairs), rest)))
          else if c = CHR ''n'' then
            (if take 4 s = ''null'' then Some (JNull, drop 4 s) else None)
          else scan_number s)"
| "parse_members 0 s = None"
| "parse_members (Suc n) s =
     (case s of
        [] \<Rightarrow> None
      | q # r \<Rightarrow>
          if q \<noteq> CHR 0x22 then None
          else (case scan_string r of
                  None \<Rightarrow> None
                | Some (k, r1) \<Rightarrow>
                    (case skip_ws r1 of
                       [] \<Rightarrow> None
                     | c # r2 \<Rightarrow>
                         if c \<noteq> CHR '':'' then None
                         else (case parse_value n (skip_ws r2) of
                                 None \<Rightarrow> None
                               | Some (v, r3) \<Rightarrow>
                                   (case skip_ws r3 of
                                      [] \<Rightarrow> None
                                    | e # r4 \<Rightarrow>
                                        if e = CHR ''}'' then Some ([(k, v)], r4)
                                        else if e = CHR '','' then
                                          (case parse_members n (skip_ws r4) of
                                             None \<Rightarrow> None
                                           | Some (kvs, r5) \<Rightarrow> Some ((k, v) # kvs, r5))
                                        else None)))))"

definition json_loads :: "string \<Rightarrow> error + json" where
  "json_loads s =
     (case parse_value (Suc (length s)) (skip_ws s) of
        None \<Rightarrow> Inl JSONDecodeError
      | Some (v, rest) \<Rightarrow> if skip_ws rest = [] then Inr v else Inl JSONDecodeError)"

subsection \<open>The file system\<close>

text \<open>
  The store maps the string form of a path to the node there. The working directory and
  the root directory always exist. An operation returns its result, or the exception it
  raises, together with the store it leaves behind.
\<close>

datatype node = Dir | File string

type_synonym store = "string \<Rightarrow> node option"

type_synonym 'a result = "(error + 'a) \<times> store"

definition then_do :: "'a result \<Rightarrow> ('a \<Rightarrow> store \<Rightarrow> 'b result) \<Rightarrow> 'b result" where
  "then_do m f = (case m of (Inl e, fs) \<Rightarrow> (Inl e, fs) | (Inr x, fs) \<Rightarrow> f x fs)"

definition parent :: "path \<Rightarrow> path" where
  "parent p = (fst p, butlast (snd p))"

definition node_at :: "store \<Rightarrow> path \<Rightarrow> node option" where
  "node_at fs p = (if snd p = [] then Some Dir else fs (path_str p))"

definition os_mkdir :: "path \<Rightarrow> store \<Rightarrow> unit result" where
  "os_mkdir p fs =
     (case node_at fs p of
        Some _ \<Rightarrow> (Inl FileExistsError, fs)
      | None \<Rightarrow>
          (case node_at fs (parent p) of
             None \<Rightarrow> (Inl FileNotFoundError, fs)
           | Some (File _) \<Rightarrow> (Inl NotADirectoryError, fs)
           | Some Dir \<Rightarrow> (Inr (), fs(path_str p \<mapsto> Dir))))"

text \<open>
  \<^verbatim>\<open>Path.mkdir(parents=True, exist_ok=True)\<close>: a missing parent is created first, and any
  other failure is let through unless the path is a directory already.
\<close>

function mkdir_parents :: "path \<Rightarrow> store \<Rightarrow> unit result" where
  "mkdir_parents p fs =
     (case os_mkdir p fs of
        (Inr u, fs') \<Rightarrow> (Inr u, fs')
      | (Inl e, fs') \<Rightarrow>
          if e = FileNotFoundError then
            (if snd p = [] then (Inl e, fs')
             else then_do (mkdir_parents (parent p) fs')
                    (\<lambda>u fs1. case os_mkdir p fs1 of
                                (Inr u, fs2) \<Rightarrow> (Inr u, fs2)
                              | (Inl e1, fs2) \<Rightarrow>
                                  if e1 \<noteq> FileNotFoundError \<and> node_at fs2 p = Some Dir
                                  then (Inr (), fs2) else (Inl e1, fs2)))
          else if node_at fs' p = Some Dir then (Inr (), fs') else (Inl e, fs'))"
  by pat_completeness auto
termination
  by (relation "measure (\<lambda>(p, fs). length (snd p))") (auto simp: parent_def)

declare mkdir_parents.simps [simp del]

text \<open>Opening a file for writing, and \<^verbatim>\<open>Path.write_text\<close>.\<close>

definition write_text :: "path \<Rightarrow> string \<Rightarrow> store \<Rightarrow> unit result" where
  "write_text p txt fs =
     (case node_at fs p of
        Some Dir \<Rightarrow> (Inl IsADirectoryError, fs)
      | Some (File _) \<Rightarrow> (Inr (), fs(path_str p \<mapsto> File txt))
      | None \<Rightarrow>
          (case node_at fs (parent p) of
             None \<Rightarrow> (Inl FileNotFoundError, fs)
           | Some (File _) \<Rightarrow> (Inl NotADirectoryError, fs)
           | Some Dir \<Rightarrow> (Inr (), fs(path_str p \<mapsto> File txt))))"

definition read_text :: "path \<Rightarrow> store \<Rightarrow> error + string" where
  "read_text p fs =
     (case node_at fs p of
        Some (File txt) \<Rightarrow> Inr txt
      | Some Dir \<Rightarrow> Inl IsADirectoryError
      | None \<Rightarrow>
          (case node_at fs (parent p) of
             Some (File _) \<Rightarrow> Inl NotADirectoryError
           | _ \<Rightarrow> Inl FileNotFoundError))"

definition exists_path :: "path \<Rightarrow> store \<Rightarrow> bool" where
  "exists_path p fs = (node_at fs p \<noteq> None)"

text \<open>
  \<^verbatim>\<open>shutil.copy(src, dst)\<close>: into the directory when \<open>dst\<close> is one, refusing to copy a file
  onto itself.
\<close>

definition shutil_copy :: "path \<Rightarrow> path \<Rightarrow> store \<Rightarrow> unit result" where
  "shutil_copy src dst fs =
     (let dst' = (if node_at fs dst = Some Dir then path_join dst (path_name src) else dst)
      in if path_str src = path_str dst' \<and> node_at fs src \<noteq> None then (Inl SameFileError, fs)
         else (case node_at fs src of
                 None \<Rightarrow> (Inl FileNotFoundError, fs)
               | Some Dir \<Rightarrow> (Inl IsADirectoryError, fs)
               | Some (File txt) \<Rightarrow> write_text dst' txt fs))"

subsection \<open>Setup and the catalog store\<close>

definition ensure_structure :: "store \<Rightarrow> unit result" where
  "ensure_structure fs =
     then_do (mkdir_parents TABLES_DIR fs) (\<lambda>u fs1.
     then_do (mkdir_parents METADATA_DIR fs1) (\<lambda>u fs2.
       if \<not> exists_path CATALOG_FILE fs2 then write_text CATALOG_FILE ''{}'' fs2
       else (Inr (), fs2)))"

definition load_catalog :: "store \<Rightarrow> error + json" where
  "load_catalog fs =
     (case read_text CATALOG_FILE fs of Inl e \<Rightarrow> Inl e | Inr txt \<Rightarrow> json_loads txt)"

definition save_catalog :: "json \<Rightarrow> store \<Rightarrow> unit result" where
  "save_catalog catalog fs = write_text CATALOG_FILE (json_dumps catalog) fs"

subsection \<open>Schema inference\<close>

text \<open>
  The engine that opens a file is outside this program: \<open>reader fmt n\<close> is what it finds
  in the node \<open>n\<close> read as format \<open>fmt\<close>, the columns with their type names, or its error.
  The comprehension builds a dictionary from the columns.
\<close>

type_synonym reader = "string \<Rightarrow> node option \<Rightarrow> error + (string \<times> string) list"

definition infer_schema :: "reader \<Rightarrow> path \<Rightarrow> string \<Rightarrow> store \<Rightarrow> error + json" where
  "infer_schema reader file_path file_format fs =
     (if file_format = ''csv'' \<or> file_format = ''parquet'' then
        (case reader file_format (node_at fs file_path) of
           Inl e \<Rightarrow> Inl e
         | Inr cols \<Rightarrow> Inr (JObj (dict_of (map (\<lambda>ct. (fst ct, JStr (snd ct))) cols))))
      else Inl (ValueError (''Unsupported format: '' @ file_format)))"

subsection \<open>Version control\<close>

text \<open>
  \<^verbatim>\<open>subprocess.run(args, check=True)\<close>: the child exits with a status, or cannot be started
  at all (no \<^verbatim>\<open>git\<close> executable, for one), which raises an \<^verbatim>\<open>OSError\<close>. The outcome of
  each call is a parameter; what the tool writes under the root is not modelled.
\<close>

datatype outcome = Exited nat | NotStarted error

type_synonym runner = "string list \<Rightarrow> outcome"

definition run_check :: "runner \<Rightarrow> string list \<Rightarrow> error + unit" where
  "run_check run args =
     (case run args of
        Exited n \<Rightarrow> if n = 0 then Inr () else Inl (CalledProcessError n)
      | NotStarted e \<Rightarrow> Inl e)"

text \<open>The handler catches \<^verbatim>\<open>CalledProcessError\<close> and nothing else.\<close>

definition handled :: "error + unit \<Rightarrow> error + unit" where
  "handled r = (case r of Inl (CalledProcessError n) \<Rightarrow> Inr () | _ \<Rightarrow> r)"

definition git_commit :: "runner \<Rightarrow> string \<Rightarrow> error + unit" where
  "git_commit run message =
     handled (case run_check run [''git'', ''add'', ''.''] of
                Inl e \<Rightarrow> Inl e
              | Inr u \<Rightarrow> run_check run [''git'', ''commit'', ''-m'', message])"

subsection \<open>Adding a table\<close>

text \<open>The operations of a dictionary, on whatever value the document held.\<close>

definition substring :: "string \<Rightarrow> string \<Rightarrow> bool" where
  "substring k s = (\<exists>i \<in> set [0 ..< Suc (length s)]. take (length k) (drop i s) = k)"

definition py_contains :: "json \<Rightarrow> string \<Rightarrow> error + bool" where
  "py_contains c k =
     (case c of
        JObj kvs \<Rightarrow> Inr (k \<in> set (map fst kvs))
      | JStr s \<Rightarrow> Inr (substring k s)
      | _ \<Rightarrow> Inl TypeError)"

definition py_len :: "json \<Rightarrow> error + nat" where
  "py_len c =
     (case c of JObj kvs \<Rightarrow> Inr (length kvs) | JStr s \<Rightarrow> Inr (length s) | _ \<Rightarrow> Inl TypeError)"

definition py_setitem :: "json \<Rightarrow> string \<Rightarrow> json \<Rightarrow> error + json" where
  "py_setitem c k v =
     (case c of JObj kvs \<Rightarrow> Inr (JObj (AList.update k v kvs)) | _ \<Rightarrow> Inl TypeError)"

text \<open>
  \<^verbatim>\<open>schema, _ = infer_schema(dst_path, file_format)\<close>: the right-hand side is the
  dictionary that \<^verbatim>\<open>infer_schema\<close> returns, and unpacking a dictionary iterates its keys.
  There must be exactly two of them, and \<^verbatim>\<open>schema\<close> is bound to the first.
\<close>

definition unpack_pair :: "json \<Rightarrow> error + json" where
  "unpack_pair d =
     (case d of
        JObj kvs \<Rightarrow>
          (case map fst kvs of
             [a, b] \<Rightarrow> Inr (JStr a)
           | a # b # c # ks \<Rightarrow> Inl (ValueError ''too many values to unpack (expected 2)'')
           | ks \<Rightarrow> Inl (ValueError (''not enough values to unpack (expected 2, got ''
                                      @ digits (length ks) @ '')'')))
      | _ \<Rightarrow> Inl TypeError)"

definition lift :: "error + 'a \<Rightarrow> store \<Rightarrow> 'a result" where
  "lift r fs = (r, fs)"

definition file_format_of :: "string \<Rightarrow> error + string" where
  "file_format_of ext =
     (if ext = ''.csv'' then Inr ''csv''
      else if ext = ''.parquet'' then Inr ''parquet''
      else Inl (ValueError ''Unsupported file type. Only .csv and .parquet are supported.''))"

definition table_entry :: "nat \<Rightarrow> string \<Rightarrow> bool \<Rightarrow> string \<Rightarrow> json \<Rightarrow> json" where
  "table_entry table_index ext has_desc file_format schema =
     JObj [(''index'', JInt (int table_index)),
           (''file'', JStr (''tables/'' @ digits table_index @ ext)),
           (''description_file'',
              if has_desc then JStr (''tables/'' @ digits table_index @ ''.description.md'')
              else JNull),
           (''format'', JStr file_format),
           (''schema'', schema)]"

text \<open>A description path counts when it is given and not the empty string.\<close>

definition truthy_path :: "string option \<Rightarrow> bool" where
  "truthy_path d = (case d of None \<Rightarrow> False | Some s \<Rightarrow> s \<noteq> [])"

definition add_table ::
  "reader \<Rightarrow> runner \<Rightarrow> string \<Rightarrow> string \<Rightarrow> string option \<Rightarrow> store \<Rightarrow> unit result" where
  "add_table reader run logical_name source_file_path description_path fs =
     then_do (ensure_structure fs) (\<lambda>u fs.
     then_do (lift (load_catalog fs) fs) (\<lambda>catalog fs.
     then_do (lift (py_contains catalog logical_name) fs) (\<lambda>present fs.
       if present
       then (Inl (ValueError (''Table '' @ quoted logical_name @ '' already exists.'')), fs)
       else
     then_do (lift (py_len catalog) fs) (\<lambda>table_index fs.
       let src_path = Path source_file_path; ext = lower (suffix src_path) in
     then_do (lift (file_format_of ext) fs) (\<lambda>file_format fs.
       let dst_path = path_join TABLES_DIR (digits table_index @ ext) in
     then_do (shutil_copy src_path dst_path fs) (\<lambda>u fs.
     then_do (case description_path of
                Some d \<Rightarrow>
                  if d \<noteq> []
                  then shutil_copy (Path d)
                         (path_join TABLES_DIR (digits table_index @ ''.description.md'')) fs
                  else (Inr (), fs)
              | None \<Rightarrow> (Inr (), fs)) (\<lambda>u fs.
     then_do (lift (infer_schema reader dst_path file_format fs) fs) (\<lambda>inferred fs.
     then_do (lift (unpack_pair inferred) fs) (\<lambda>schema fs.
     then_do (lift (py_setitem catalog logical_name
                (table_entry table_index ext (truthy_path description_path) file_format schema))
                fs) (\<lambda>catalog' fs.
     then_do (save_catalog catalog' fs) (\<lambda>u fs.
       lift (git_commit run (''Add table: '' @ logical_name)) fs)))))))))))"

subsection \<open>Metadata lookup\<close>

text \<open>\<^verbatim>\<open>catalog.get(logical_name)\<close> and the truth value of what it returns.\<close>

definition py_get :: "json \<Rightarrow> string \<Rightarrow> error + json" where
  "py_get c k =
     (case c of
        JObj kvs \<Rightarrow> Inr (case map_of kvs k of None \<Rightarrow> JNull | Some v \<Rightarrow> v)
      | _ \<Rightarrow> Inl AttributeError)"

fun truthy :: "json \<Rightarrow> bool" where
  "truthy JNull = False"
| "truthy (JInt i) = (i \<noteq> 0)"
| "truthy (JStr s) = (s \<noteq> [])"
| "truthy (JObj kvs) = (kvs \<noteq> [])"

definition get_table_meta :: "string \<Rightarrow> store \<Rightarrow> error + json" where
  "get_table_meta logical_name fs =
     (case load_catalog fs of
        Inl e \<Rightarrow> Inl e
      | Inr catalog \<Rightarrow>
          (case py_get catalog logical_name of
             Inl e \<Rightarrow> Inl e
           | Inr entry \<Rightarrow>
               if \<not> truthy entry
               then Inl (ValueError (''Table '' @ quoted logical_name @ '' not found''))
               else Inr entry))"

subsection \<open>Running a query\<close>

text \<open>
  The engine behind \<^verbatim>\<open>ddb.connect()\<close> and \<^verbatim>\<open>conn.query(sql)\<close> is outside this program:
  \<open>engine sql fs\<close> is what it returns for the statement (the connection and the relation)
  or the error it raises, and the store it leaves. An engine runs the statement it is
  handed, and a statement may write files as well as read them.
\<close>

type_synonym 'r engine = "string \<Rightarrow> store \<Rightarrow> 'r result"

definition py_keys :: "json \<Rightarrow> error + catalog" where
  "py_keys c = (case c of JObj kvs \<Rightarrow> Inr kvs | _ \<Rightarrow> Inl AttributeError)"

definition query_sql ::
  "'r engine \<Rightarrow> template \<Rightarrow> string list \<Rightarrow> string \<Rightarrow> store \<Rightarrow> 'r result" where
  "query_sql engine tmpl order sql fs =
     then_do (ensure_structure fs) (\<lambda>u fs.
     then_do (lift (load_catalog fs) fs) (\<lambda>catalog fs.
     then_do (lift (py_keys catalog) fs) (\<lambda>kvs fs.
     then_do (lift (rewrite tmpl kvs order sql) fs) (\<lambda>sql' fs.
       engine sql' fs))))"

subsection \<open>The catalog as the operations read it\<close>

text \<open>
  \<^verbatim>\<open>add_table\<close>, \<^verbatim>\<open>list_tables\<close> and \<^verbatim>\<open>query_sql\<close> open with the same two calls,
  \<^verbatim>\<open>ensure_structure()\<close> and \<^verbatim>\<open>load_catalog()\<close>: \<open>catalog_of\<close> is the catalog they
  work on. \<open>initialised\<close> says that the three directories of the layout exist.
\<close>

definition catalog_of :: "store \<Rightarrow> error + json" where
  "catalog_of fs =
     (case ensure_structure fs of (Inl e, fs1) \<Rightarrow> Inl e | (Inr u, fs1) \<Rightarrow> load_catalog fs1)"

definition initialised :: "store \<Rightarrow> bool" where
  "initialised fs =
     (fs ''my-datalake'' = Some Dir \<and> fs ''my-datalake/tables'' = Some Dir
      \<and> fs ''my-datalake/metadata'' = Some Dir)"

subsection \<open>Catalog values and the round trip\<close>

text \<open>
  A Python dictionary has no repeated key: \<open>wf_json\<close> says so of every dictionary in a
  value. \<open>resave\<close> is \<^verbatim>\<open>save_catalog(load_catalog())\<close>.
\<close>

fun wf_json :: "json \<Rightarrow> bool" and wf_items :: "(string \<times> json) list \<Rightarrow> bool" where
  "wf_json (JObj kvs) = (distinct (map fst kvs) \<and> wf_items kvs)"
| "wf_json v = True"
| "wf_items [] = True"
| "wf_items (kv # kvs) = (wf_json (snd kv) \<and> wf_items kvs)"

definition resave :: "store \<Rightarrow> unit result" where
  "resave fs = then_do (lift (load_catalog fs) fs) (\<lambda>catalog fs. save_catalog catalog fs)"

text \<open>What may follow a number in the text.\<close>

definition ends_number :: "string \<Rightarrow> bool" where
  "ends_number rest =
     (case rest of [] \<Rightarrow> True
      | c # cs \<Rightarrow> \<not> is_digit c \<and> c \<noteq> CHR ''.'' \<and> c \<noteq> CHR ''e'' \<and> c \<noteq> CHR ''E'')"

subsection \<open>Example catalogs\<close>

definition entry :: "nat \<Rightarrow> string \<Rightarrow> string \<Rightarrow> json" where
  "entry i file fmt =
     JObj [(''index'', JInt (int i)), (''file'', JStr file), (''description_file'', JNull),
           (''format'', JStr fmt), (''schema'', JStr ''id'')]"

definition no_template :: template where
  "no_template repl = Inl RegexError"

definition sales_only :: catalog where
  "sales_only = [(''sales'', entry 0 ''tables/0.csv'' ''csv'')]"

definition sales_and_from :: catalog where
  "sales_and_from =
     [(''sales'', entry 0 ''tables/0.csv'' ''csv''), (''FROM'', entry 1 ''tables/1.csv'' ''csv'')]"

definition sales_and_csv :: catalog where
  "sales_and_csv =
     [(''sales'', entry 0 ''tables/0.csv'' ''csv''), (''csv'', entry 1 ''tables/1.csv'' ''csv'')]"

definition sales_and_regions :: catalog where
  "sales_and_regions =
     [(''sales'', entry 0 ''tables/0.csv'' ''csv''),
      (''regions'', entry 1 ''tables/1.parquet'' ''parquet'')]"

subsection \<open>Example stores and collaborators\<close>

text \<open>
  A fresh system with two source files beside it, an engine that finds the columns
  \<open>id\<close> and \<open>name\<close> in any file, and three behaviours of the version-control tool.
\<close>

definition fresh :: store where
  "fresh = [''orders.csv'' \<mapsto> File ''id,name'', ''returns.parquet'' \<mapsto> File ''PAR1'']"

definition two_columns :: reader where
  "two_columns fmt n =
     (case n of
        Some (File txt) \<Rightarrow> Inr [(''id'', ''BIGINT''), (''name'', ''VARCHAR'')]
      | _ \<Rightarrow> Inl EngineError)"

definition three_columns :: reader where
  "three_columns fmt n =
     (case n of
        Some (File txt) \<Rightarrow> Inr [(''id'', ''BIGINT''), (''name'', ''VARCHAR''), (''day'', ''DATE'')]
      | _ \<Rightarrow> Inl EngineError)"

text \<open>
  Two engines. The first only reads: it leaves the store alone, and its result stands for
  the relation of the statement it was handed. The second also runs the statement that
  copies a query result to the catalog document, by writing the result there.
\<close>

definition echo_engine :: "string engine" where
  "echo_engine sql fs = (Inr sql, fs)"

definition copy_statement :: string where
  "copy_statement = ''COPY (SELECT 42) TO '' @ quoted ''my-datalake/metadata/catalog.json''"

definition copying_engine :: "string engine" where
  "copying_engine sql fs =
     (if sql = copy_statement
      then (Inr sql, fs(''my-datalake/metadata/catalog.json'' \<mapsto> File ''42''))
      else (Inr sql, fs))"

definition git_ok :: runner where
  "git_ok args = Exited 0"

definition git_no_repository :: runner where
  "git_no_repository args = Exited 128"

definition git_missing :: runner where
  "git_missing args = NotStarted FileNotFoundError"

definition orders_entry :: json where
  "orders_entry = table_entry 0 ''.csv'' False ''csv'' (JStr ''id'')"

definition returns_entry :: json where
  "returns_entry = table_entry 1 ''.parquet'' False ''parquet'' (JStr ''id'')"

text \<open>The store after \<open>orders\<close> has been registered on the fresh system.\<close>

definition one_table :: store where
  "one_table = snd (add_table two_columns git_ok ''orders'' ''orders.csv'' None fresh)"

text \<open>And after \<open>returns\<close> has been registered as well.\<close>

definition two_tables :: store where
  "two_tables = snd (add_table two_columns git_ok ''returns'' ''returns.parquet'' None one_table)"

section \<open>Properties\<close>

subsection \<open>Evaluation of the scans\<close>

lemma words_sales_region:
  "findall_words None ''SELECT * FROM sales_region'' = [''SELECT'', ''FROM'', ''sales_region'']"
  by (simp add: is_word_def word_boundary_def)

text \<open>Accented letters are word characters, the multiplication sign is not.\<close>

lemma words_beyond_ascii:
  "findall_words None (''SELECT * FROM caf'' @ [CHR 0xE9] @ '' x'' @ [CHR 0xD7] @ ''y'')
     = [''SELECT'', ''FROM'', ''caf'' @ [CHR 0xE9], ''x'', ''y'']"
  by code_simp

lemma rewrite_empty_order: "rewrite tmpl catalog [] sql = Inr sql"
  by (simp add: rewrite_def)

subsection \<open>Substring safety\<close>

text \<open>
  C2 (as amended). The claim quantifies over every catalog that holds \<open>sales\<close> and not
  \<open>sales_region\<close>; the rewriter does not tell keywords from table names, so the catalog
  must hold none of the three tokens \<open>SELECT\<close>, \<open>FROM\<close> and \<open>sales_region\<close> of the
  statement. For such a catalog, whatever else it holds, \<open>SELECT * FROM sales_region\<close> is
  returned unchanged; and in general an SQL string none of whose whole-word tokens is a
  catalog name is returned unchanged, in every iteration order of the matched names.
\<close>

theorem rewrite_without_matched_name:
  assumes "iteration_order order (matched_names catalog sql)"
  shows "(set (map fst catalog) \<inter> set (findall_words None sql) = {}
            \<longrightarrow> rewrite tmpl catalog order sql = Inr sql)
       \<and> (sql = ''SELECT * FROM sales_region''
            \<and> set (map fst catalog) \<inter> {''SELECT'', ''FROM'', ''sales_region''} = {}
            \<longrightarrow> rewrite tmpl catalog order sql = Inr ''SELECT * FROM sales_region'')"
proof -
  have none: "rewrite tmpl catalog order sql = Inr sql"
    if "set (map fst catalog) \<inter> set (findall_words None sql) = {}"
  proof -
    from that assms have "order = []"
      by (simp add: iteration_order_def matched_names_def)
    then show ?thesis by (simp add: rewrite_empty_order)
  qed
  have "rewrite tmpl catalog order sql = Inr ''SELECT * FROM sales_region''"
    if "sql = ''SELECT * FROM sales_region''"
      and "set (map fst catalog) \<inter> {''SELECT'', ''FROM'', ''sales_region''} = {}"
  proof -
    from that have "set (map fst catalog) \<inter> set (findall_words None sql) = {}"
      by (simp only: words_sales_region) auto
    then show ?thesis using none that(1) by simp
  qed
  with none show ?thesis by blast
qed

theorem rewrite_without_matched_name_witness:
  "iteration_order [] (matched_names sales_only ''SELECT * FROM sales_region'')
   \<and> set (map fst sales_only) \<inter> set (findall_words None ''SELECT * FROM sales_region'') = {}
   \<and> set (map fst sales_only) \<inter> {''SELECT'', ''FROM'', ''sales_region''} = {}
   \<and> rewrite no_template sales_only [] ''SELECT * FROM sales_region''
       = Inr ''SELECT * FROM sales_region''"
proof -
  have w: "set (map fst sales_only) \<inter> set (findall_words None ''SELECT * FROM sales_region'') = {}"
    by (simp only: words_sales_region) (simp add: sales_only_def)
  have k: "set (map fst sales_only) \<inter> {''SELECT'', ''FROM'', ''sales_region''} = {}"
    by (simp add: sales_only_def)
  have o: "iteration_order [] (matched_names sales_only ''SELECT * FROM sales_region'')"
    using w by (simp add: iteration_order_def matched_names_def)
  from rewrite_without_matched_name [OF o, of no_template] w k o show ?thesis
    by simp
qed

text \<open>
  The claim as stated fails: a catalog may hold \<open>sales\<close>, not hold \<open>sales_region\<close>, and
  hold the table name \<open>FROM\<close>, which is a whole-word token of the statement.
\<close>

theorem rewrite_sales_region_counterexample:
  "''sales'' \<in> set (map fst sales_and_from)
   \<and> ''sales_region'' \<notin> set (map fst sales_and_from)
   \<and> iteration_order [''FROM''] (matched_names sales_and_from ''SELECT * FROM sales_region'')
   \<and> rewrite no_template sales_and_from [''FROM''] ''SELECT * FROM sales_region''
       = Inr (''SELECT * '' @ quoted ''my-datalake/tables/1.csv'' @ '' sales_region'')
   \<and> rewrite no_template sales_and_from [''FROM''] ''SELECT * FROM sales_region''
       \<noteq> Inr ''SELECT * FROM sales_region''"
proof -
  have m: "matched_names sales_and_from ''SELECT * FROM sales_region'' = {''FROM''}"
    by (simp only: matched_names_def words_sales_region) (auto simp: sales_and_from_def)
  have r: "rewrite no_template sales_and_from [''FROM''] ''SELECT * FROM sales_region''
       = Inr (''SELECT * '' @ quoted ''my-datalake/tables/1.csv'' @ '' sales_region'')"
    by (simp add: rewrite_def sales_and_from_def entry_def re_sub_word_def quoted_def
        as_posix_def path_str_def path_join_def Path_def splitroot_def DATA_LAKE_ROOT_def
        matches_at_def word_boundary_def is_word_def)
  show ?thesis
    by (simp only: r m) (simp add: sales_and_from_def iteration_order_def quoted_def)
qed

subsection \<open>Runs, blocks and the scans\<close>

lemma concat_segs: "concat (segs s) = s"
  by (induction s) (auto split: list.splits)

lemma all_other_filler: "all_other s \<Longrightarrow> filler s"
  by (cases s) (auto simp: all_other_def filler_def)

lemma not_both: "all_word s \<Longrightarrow> \<not> all_other s" "all_word s \<Longrightarrow> \<not> filler s"
  by (cases s; auto simp: all_word_def all_other_def filler_def)+

lemma all_word_Cons: "all_word (c # g) = (is_word c \<and> (g = [] \<or> all_word g))"
  by (auto simp: all_word_def)

lemma all_other_Cons: "all_other (c # g) = (\<not> is_word c \<and> (g = [] \<or> all_other g))"
  by (auto simp: all_other_def)

lemma all_word_hd: "all_word g \<Longrightarrow> is_word (hd g)"
  by (cases g) (auto simp: all_word_def)

lemma all_other_hd: "all_other g \<Longrightarrow> \<not> is_word (hd g)"
  by (cases g) (auto simp: all_other_def)

lemma runs_ok_segs: "runs_ok (segs s)"
proof (induction s)
  case Nil
  then show ?case by simp
next
  case (Cons c cs)
  show ?case
  proof (cases "segs cs")
    case Nil
    then show ?thesis by (simp add: all_word_def all_other_def)
  next
    case (Cons g gs)
    with Cons.IH have r: "runs_ok (g # gs)" by simp
    then have g: "all_word g \<or> all_other g" by auto
    show ?thesis
    proof (cases "is_word c = is_word (hd g)")
      case True
      with r g Cons show ?thesis
        by (auto simp: all_word_Cons all_other_Cons dest: all_word_hd all_other_hd)
    next
      case False
      with r g Cons show ?thesis
        by (auto simp: all_word_Cons all_other_Cons dest: all_word_hd all_other_hd)
    qed
  qed
qed

lemma runs_ok_blocks_ok: "runs_ok gs \<Longrightarrow> blocks_ok gs"
  by (induction gs) (auto simp: all_other_filler)

lemma runs_ok_cases: "runs_ok gs \<Longrightarrow> g \<in> set gs \<Longrightarrow> all_word g \<or> all_other g"
  by (induction gs) auto

lemma first_append: "first (x @ y) = (if x = [] then first y else first x)"
  by (cases x) auto

lemma matches_at_needs_word:
  assumes "all_word name" "\<not> is_w (first s)"
  shows "\<not> matches_at name prev s"
proof
  assume m: "matches_at name prev s"
  then have t: "take (length name) s = name" and n: "name \<noteq> []"
    by (auto simp: matches_at_def)
  then obtain c cs where s: "s = c # cs" by (cases s) auto
  with t n have "hd name = c" by (cases name) auto
  with assms s n show False by (cases name) (auto simp: all_word_def)
qed

lemma matches_at_needs_boundary:
  assumes "all_word name" "is_w prev"
  shows "\<not> matches_at name prev s"
proof
  assume m: "matches_at name prev s"
  then have b: "word_boundary prev (first s)" by (simp add: matches_at_def)
  with assms(2) have "\<not> is_w (first s)" by (simp add: word_boundary_def)
  with matches_at_needs_word [OF assms(1) this] m show False by simp
qed

text \<open>A run of non-word characters is copied.\<close>

lemma sub_scan_other:
  assumes "all_word name" "\<forall>c \<in> set g. \<not> is_word c"
  shows "sub_scan name r prev (g @ t) = g @ sub_scan name r (if g = [] then prev else Some (last g)) t"
  using assms(2)
proof (induction g arbitrary: prev)
  case Nil
  then show ?case by simp
next
  case (Cons c g)
  then have "\<not> matches_at name prev ((c # g) @ t)"
    using matches_at_needs_word [OF assms(1), of "(c # g) @ t" prev] by simp
  with Cons show ?case by simp
qed

text \<open>Behind a word character, the word characters that follow are copied.\<close>

lemma sub_scan_inside:
  assumes "all_word name" "\<forall>c \<in> set w. is_word c" "is_w prev"
  shows "sub_scan name r prev (w @ t) = w @ sub_scan name r (if w = [] then prev else Some (last w)) t"
  using assms(2,3)
proof (induction w arbitrary: prev)
  case Nil
  then show ?case by simp
next
  case (Cons c w)
  have "\<not> matches_at name prev ((c # w) @ t)"
    using matches_at_needs_boundary [OF assms(1) Cons.prems(2)] by simp
  with Cons show ?case by simp
qed

text \<open>A whole run that is the name is replaced.\<close>

lemma sub_scan_name:
  assumes "all_word name" "\<not> is_w prev" "\<not> is_w (first t)"
  shows "sub_scan name r prev (name @ t) = r @ sub_scan name r (Some (last name)) t"
proof -
  from assms(1) obtain c cs where n: "name = c # cs" and w: "is_word c" "is_word (last name)"
    by (cases name) (auto simp: all_word_def)
  have "matches_at name prev (name @ t)"
    using assms(2,3) n w by (simp add: matches_at_def word_boundary_def)
  then show ?thesis
    using n by simp
qed

text \<open>A whole run that is not the name is copied.\<close>

lemma no_match_other_run:
  assumes "all_word name" "all_word g" "g \<noteq> name" "\<not> is_w (first t)"
  shows "\<not> matches_at name prev (g @ t)"
proof
  assume m: "matches_at name prev (g @ t)"
  then have tk: "take (length name) (g @ t) = name"
    and b: "word_boundary (Some (last name)) (first (drop (length name) (g @ t)))"
    by (auto simp: matches_at_def)
  from assms(1) have ln: "is_word (last name)" by (auto simp: all_word_def)
  with b have nb: "\<not> is_w (first (drop (length name) (g @ t)))"
    by (simp add: word_boundary_def)
  consider "length name < length g" | "length g < length name" | "length name = length g"
    by linarith
  then show False
  proof cases
    case 1
    then have "drop (length name) g \<noteq> []" by simp
    then obtain d ds where d: "drop (length name) g = d # ds"
      by (cases "drop (length name) g") auto
    then have "d \<in> set g" by (metis in_set_dropD list.set_intros(1))
    with assms(2) have "is_word d" by (simp add: all_word_def)
    with nb d 1 show False by simp
  next
    case 2
    define k where "k = length name - length g"
    from 2 tk have eq: "name = g @ take k t" by (simp add: k_def)
    then have "length name = length g + length (take k t)" by (metis length_append)
    with 2 have "take k t \<noteq> []" by auto
    then obtain d ds where t: "t = d # ds" and k: "0 < k" by (cases t; cases k) auto
    then have "take k t = d # take (k - 1) ds" by (cases k) auto
    with eq have "d \<in> set name" by (metis in_set_conv_decomp)
    with assms(1,4) t show False by (simp add: all_word_def)
  next
    case 3
    with tk assms(3) show False by simp
  qed
qed

lemma sub_scan_other_run:
  assumes "all_word name" "all_word g" "g \<noteq> name" "\<not> is_w (first t)"
  shows "sub_scan name r prev (g @ t) = g @ sub_scan name r (Some (last g)) t"
proof -
  from assms(2) obtain c w where g: "g = c # w" and c: "is_word c" and w: "\<forall>d \<in> set w. is_word d"
    by (cases g) (auto simp: all_word_def)
  have "sub_scan name r prev (g @ t) = c # sub_scan name r (Some c) (w @ t)"
    using no_match_other_run [OF assms, of prev] g by simp
  also have "sub_scan name r (Some c) (w @ t)
      = w @ sub_scan name r (if w = [] then Some c else Some (last w)) t"
    using sub_scan_inside [OF assms(1) w, of "Some c" r t] c by simp
  finally show ?thesis using g by simp
qed

text \<open>A text that ends in a non-word character is scanned on its own.\<close>

lemma matches_at_in_front:
  assumes "all_word name" "x \<noteq> []" "\<not> is_word (last x)"
  shows "matches_at name prev (x @ y) = matches_at name prev x"
    and "matches_at name prev x \<Longrightarrow> length name < length x"
proof -
  have short: "length name < length x" if "take (length name) (x @ y) = name"
  proof (rule ccontr)
    assume "\<not> length name < length x"
    then have "take (length name) (x @ y) = x @ take (length name - length x) y" by simp
    with that have "set x \<subseteq> set name" by (metis set_append sup_ge1)
    with assms(2) have "last x \<in> set name" by auto
    with assms(1,3) show False by (simp add: all_word_def)
  qed
  have short': "length name < length x" if "take (length name) x = name"
  proof -
    from that have "take (length name) (x @ y) = name"
      by (metis append_take_drop_id length_take min.absorb_iff2 nat_le_linear take_all
          take_append diff_is_0_eq' take0 append_Nil2)
    then show ?thesis by (rule short)
  qed
  show "matches_at name prev x \<Longrightarrow> length name < length x"
    using short' by (simp add: matches_at_def)
  show "matches_at name prev (x @ y) = matches_at name prev x"
  proof (cases "length name < length x")
    case True
    then have "drop (length name) x \<noteq> []" by simp
    then have "first (drop (length name) x @ y) = first (drop (length name) x)"
      by (simp add: first_append)
    with True assms(2) show ?thesis
      by (simp add: matches_at_def first_append)
  next
    case False
    with short short' show ?thesis by (auto simp: matches_at_def)
  qed
qed

lemma sub_scan_front:
  "all_word name \<Longrightarrow> x \<noteq> [] \<Longrightarrow> \<not> is_word (last x) \<Longrightarrow>
    sub_scan name r prev (x @ y) = sub_scan name r prev x @ sub_scan name r (Some (last x)) y"
proof (induction name r prev x rule: sub_scan.induct)
  case (1 name r prev)
  then show ?case by simp
next
  case (2 name r prev c cs)
  note m = matches_at_in_front(1) [OF "2.prems", of prev y]
    matches_at_in_front(2) [OF "2.prems", of prev]
  show ?case
  proof (cases "matches_at name prev (c # cs)")
    case True
    from m(2) [OF True] have l: "length name < length (c # cs)" .
    then have d: "drop (length name) (c # cs) \<noteq> []" by simp
    have la: "last (drop (length name) (c # cs)) = last (c # cs)"
      using l by (simp add: last_drop)
    have "length name - length (c # cs) = 0" using l by simp
    then have dr: "drop (length name) ((c # cs) @ y) = drop (length name) (c # cs) @ y"
      by (simp only: drop_append drop_0)
    have "matches_at name prev ((c # cs) @ y)" using True m(1) by simp
    then have "sub_scan name r prev ((c # cs) @ y)
        = r @ sub_scan name r (Some (last name)) (drop (length name) ((c # cs) @ y))"
      by (simp del: drop_append)
    then have "sub_scan name r prev ((c # cs) @ y)
        = r @ sub_scan name r (Some (last name)) (drop (length name) (c # cs) @ y)"
      by (simp only: dr)
    also have "sub_scan name r (Some (last name)) (drop (length name) (c # cs) @ y)
        = sub_scan name r (Some (last name)) (drop (length name) (c # cs))
          @ sub_scan name r (Some (last (c # cs))) y"
      using "2.IH"(1) [OF True "2.prems"(1) d] "2.prems"(3) la by simp
    finally show ?thesis using True by simp
  next
    case False
    show ?thesis
    proof (cases "cs = []")
      case True
      with False m(1) show ?thesis by simp
    next
      case ne: False
      with "2.prems" have "\<not> is_word (last cs)" by simp
      with "2.IH"(2) [OF False "2.prems"(1) ne] False m(1) ne show ?thesis by simp
    qed
  qed
qed

lemma sub_scan_prev_other:
  assumes "all_word name" "\<not> is_w (first x)"
  shows "sub_scan name r prev x = sub_scan name r None x"
  using matches_at_needs_word [OF assms] by (cases x) simp_all

lemma filler_first: "filler b \<Longrightarrow> \<not> is_w (first (b @ t))"
  by (cases b) (auto simp: filler_def)

lemma first_concat_blocks:
  assumes "blocks_ok bs" "bs = [] \<or> filler (hd bs)"
  shows "\<not> is_w (first (concat bs))"
  using assms by (cases bs) (auto simp: filler_first)

lemma sub_scan_blocks:
  assumes "all_word name"
  shows "blocks_ok bs \<Longrightarrow> \<not> (is_w prev \<and> bs \<noteq> [] \<and> all_word (hd bs)) \<Longrightarrow>
    sub_scan name r prev (concat bs) = concat (map (pass_block name r) bs)"
proof (induction bs arbitrary: prev)
  case Nil
  then show ?case by simp
next
  case (Cons b bs)
  from Cons.prems(1) have ok: "blocks_ok bs" by simp
  show ?case
  proof (cases "all_word b")
    case True
    with Cons.prems have p: "\<not> is_w prev" by simp
    from True Cons.prems(1) have nf: "bs = [] \<or> filler (hd bs)"
      by (auto dest: not_both)
    then have t: "\<not> is_w (first (concat bs))"
      using first_concat_blocks [OF ok] by simp
    from nf have next_ok: "\<not> (is_w (Some (last b)) \<and> bs \<noteq> [] \<and> all_word (hd bs))"
      by (auto dest: not_both)
    have "sub_scan name r prev (b @ concat bs)
        = pass_block name r b @ sub_scan name r (Some (last b)) (concat bs)"
    proof (cases "b = name")
      case eq: True
      then show ?thesis
        using sub_scan_name [OF assms p t, of r] True by (simp add: pass_block_def)
    next
      case False
      then show ?thesis
        using sub_scan_other_run [OF assms True False t, of r prev] True
        by (simp add: pass_block_def)
    qed
    with Cons.IH [OF ok next_ok] show ?thesis by simp
  next
    case False
    with Cons.prems(1) have f: "filler b" by auto
    then have b: "b \<noteq> []" "\<not> is_word (last b)" "\<not> is_w (first b)"
      by (cases b; auto simp: filler_def)+
    have "sub_scan name r prev (b @ concat bs)
        = sub_scan name r prev b @ sub_scan name r (Some (last b)) (concat bs)"
      by (rule sub_scan_front [OF assms b(1,2)])
    also have "sub_scan name r prev b = pass_block name r b"
      using sub_scan_prev_other [OF assms b(3), of r prev] False by (simp add: pass_block_def)
    finally show ?thesis
      using Cons.IH [OF ok, of "Some (last b)"] b(2) by simp
  qed
qed

lemma sub_scan_all_other:
  assumes "all_word name" "all_other g"
  shows "sub_scan name r prev g = g"
  using sub_scan_other [OF assms(1), of g r prev "[]"] assms(2)
  by (simp add: all_other_def)

text \<open>The tokens are the runs of word characters.\<close>

lemma findall_skip_other:
  assumes "\<forall>c \<in> set g. \<not> is_word c"
  shows "findall_words prev (g @ t) = findall_words (if g = [] then prev else Some (last g)) t"
  using assms by (induction g arbitrary: prev) auto

lemma findall_run:
  assumes "all_word g" "\<not> is_w prev" "\<not> is_w (first t)"
  shows "findall_words prev (g @ t) = g # findall_words (Some (last g)) t"
proof -
  from assms(1) obtain c w where g: "g = c # w" and c: "is_word c" and w: "\<forall>d \<in> set w. is_word d"
    by (cases g) (auto simp: all_word_def)
  have tw: "takeWhile is_word (g @ t) = g" and dw: "dropWhile is_word (g @ t) = t"
    using assms(1,3) by (cases t; auto simp: all_word_def takeWhile_append2 dropWhile_append2)+
  have "word_boundary prev (Some c)" using assms(2) c by (simp add: word_boundary_def)
  then have "findall_words prev (c # (w @ t))
      = takeWhile is_word (c # (w @ t))
          # findall_words (Some (last (takeWhile is_word (c # (w @ t))))) (dropWhile is_word (c # (w @ t)))"
    using c by (simp del: takeWhile.simps dropWhile.simps)
  with tw dw g show ?thesis by simp
qed

lemma findall_runs:
  "runs_ok gs \<Longrightarrow> \<not> (is_w prev \<and> gs \<noteq> [] \<and> all_word (hd gs)) \<Longrightarrow>
    findall_words prev (concat gs) = filter all_word gs"
proof (induction gs arbitrary: prev)
  case Nil
  then show ?case by simp
next
  case (Cons g gs)
  from Cons.prems(1) have ok: "runs_ok gs" by simp
  show ?case
  proof (cases "all_word g")
    case True
    with Cons.prems have p: "\<not> is_w prev" by simp
    from True Cons.prems(1) have nf: "gs = [] \<or> all_other (hd gs)"
      by (auto dest: not_both)
    then have "gs = [] \<or> filler (hd gs)" by (auto simp: all_other_filler)
    then have t: "\<not> is_w (first (concat gs))"
      using first_concat_blocks [OF runs_ok_blocks_ok [OF ok]] by simp
    from nf have next_ok: "\<not> (is_w (Some (last g)) \<and> gs \<noteq> [] \<and> all_word (hd gs))"
      by (auto dest: not_both)
    from findall_run [OF True p t] Cons.IH [OF ok next_ok] True show ?thesis by simp
  next
    case False
    with Cons.prems(1) have o: "all_other g" by auto
    then have "findall_words prev (g @ concat gs) = findall_words (Some (last g)) (concat gs)"
      using findall_skip_other [of g prev "concat gs"] by (simp add: all_other_def)
    moreover from o have "\<not> is_w (Some (last g))" by (simp add: all_other_def)
    ultimately show ?thesis
      using Cons.IH [OF ok, of "Some (last g)"] False by simp
  qed
qed

lemma findall_segs: "findall_words None s = filter all_word (segs s)"
  using findall_runs [OF runs_ok_segs, of None s] by (simp add: concat_segs)

lemma token_all_word: "g \<in> set (findall_words None s) \<Longrightarrow> all_word g"
  by (simp add: findall_segs)

text \<open>A name that is no token of a text leaves the text as it is.\<close>

lemma sub_scan_no_token:
  assumes "all_word name" "name \<notin> set (findall_words None x)"
  shows "sub_scan name r None x = x"
proof -
  have "pass_block name r g = g" if "g \<in> set (segs x)" for g
  proof (cases "all_word g")
    case True
    with that assms(2) have "g \<noteq> name" by (auto simp: findall_segs)
    with True show ?thesis by (simp add: pass_block_def)
  next
    case False
    with runs_ok_cases [OF runs_ok_segs that] have "all_other g" by simp
    with False show ?thesis by (simp add: pass_block_def sub_scan_all_other [OF assms(1)])
  qed
  then have "map (pass_block name r) (segs x) = segs x"
    by (simp add: map_idI)
  with sub_scan_blocks [OF assms(1) runs_ok_blocks_ok [OF runs_ok_segs], of None x r]
  show ?thesis by (simp add: concat_segs)
qed

lemma filler_quoted: "filler (quoted p)"
proof -
  have "\<not> is_word (CHR 0x27)" by (simp add: is_word_def)
  then show ?thesis by (simp add: filler_def quoted_def)
qed

lemma blocks_ok_map:
  assumes "\<And>b. F b = b \<or> filler (F b)"
  shows "blocks_ok bs \<Longrightarrow> blocks_ok (map F bs)"
proof (induction bs)
  case Nil
  then show ?case by simp
next
  case (Cons b bs)
  then have ok: "blocks_ok (map F bs)" by simp
  from Cons.prems have "filler b \<or> all_word b \<and> (bs = [] \<or> filler (hd bs))" by simp
  then have "filler (F b) \<or> all_word (F b) \<and> (map F bs = [] \<or> filler (hd (map F bs)))"
    using assms [of b] assms [of "hd bs"] by (cases bs) auto
  with ok show ?case by simp
qed

lemma replacement_quoted: "replacement catalog a = Some r \<Longrightarrow> \<exists>p. r = quoted p"
  by (auto simp: replacement_def split: option.splits sum.splits)

lemma substitute_block: "substitute catalog A g = g \<or> filler (substitute catalog A g)"
  by (auto simp: substitute_def filler_quoted split: option.splits dest: replacement_quoted)

lemma rewrite_loop_step:
  assumes "replacement catalog b = Some r" "CHR 0x5C \<notin> set r"
  shows "rewrite_loop tmpl catalog (b # ns) cur
     = rewrite_loop tmpl catalog ns (sub_scan b r None cur)"
  using assms
  by (auto simp: replacement_def re_sub_word_def split: option.splits sum.splits)

lemma one_pass:
  assumes ind: "independent catalog order" and b: "b \<in> set order" "b \<notin> A" "A \<subseteq> set order"
    and w: "all_word b" and r: "replacement catalog b = Some r"
  shows "sub_scan b r None (concat (map (substitute catalog A) (segs s)))
     = concat (map (substitute catalog (insert b A)) (segs s))"
proof -
  have ok: "blocks_ok (map (substitute catalog A) (segs s))"
    by (rule blocks_ok_map [OF substitute_block runs_ok_blocks_ok [OF runs_ok_segs]])
  have "pass_block b r (substitute catalog A g) = substitute catalog (insert b A) g"
    if g: "g \<in> set (segs s)" for g
  proof (cases "g \<in> A")
    case True
    with b(3) have go: "g \<in> set order" by auto
    with ind obtain rg where rg: "replacement catalog g = Some rg"
      and nt: "\<forall>c \<in> set order. c = g \<or> c \<notin> set (findall_words None rg)"
      by (auto simp: independent_def split: option.splits)
    from True b(2) have "b \<noteq> g" by auto
    with nt b(1) have "b \<notin> set (findall_words None rg)" by auto
    then have "sub_scan b r None rg = rg" by (rule sub_scan_no_token [OF w])
    moreover from rg have "\<not> all_word rg"
      using filler_quoted not_both(2) by (auto dest!: replacement_quoted)
    ultimately show ?thesis
      using True rg by (simp add: substitute_def pass_block_def)
  next
    case False
    show ?thesis
    proof (cases "g = b")
      case True
      with False w r show ?thesis by (simp add: substitute_def pass_block_def)
    next
      case ne: False
      show ?thesis
      proof (cases "all_word g")
        case True
        with False ne show ?thesis by (simp add: substitute_def pass_block_def)
      next
        case no: False
        with runs_ok_cases [OF runs_ok_segs g] have "all_other g" by simp
        with False ne no show ?thesis
          by (simp add: substitute_def pass_block_def sub_scan_all_other [OF w])
      qed
    qed
  qed
  then have "map (pass_block b r) (map (substitute catalog A) (segs s))
      = map (substitute catalog (insert b A)) (segs s)"
    by simp
  moreover have "sub_scan b r None (concat (map (substitute catalog A) (segs s)))
      = concat (map (pass_block b r) (map (substitute catalog A) (segs s)))"
    by (rule sub_scan_blocks [OF w ok]) simp
  ultimately show ?thesis by (simp only:)
qed

lemma passes:
  assumes ind: "independent catalog order" and w: "\<forall>n \<in> set order. all_word n"
  shows "distinct ns \<Longrightarrow> set ns \<inter> A = {} \<Longrightarrow> A \<union> set ns \<subseteq> set order \<Longrightarrow>
    rewrite_loop tmpl catalog ns (concat (map (substitute catalog A) (segs s)))
      = Inr (concat (map (substitute catalog (A \<union> set ns)) (segs s)))"
proof (induction ns arbitrary: A)
  case Nil
  then show ?case by simp
next
  case (Cons b ns)
  from Cons.prems have b: "b \<in> set order" "b \<notin> A" "A \<subseteq> set order" by auto
  with ind obtain r where r: "replacement catalog b = Some r" and nb: "CHR 0x5C \<notin> set r"
    by (auto simp: independent_def split: option.splits)
  from w b(1) have wb: "all_word b" by simp
  have "rewrite_loop tmpl catalog (b # ns) (concat (map (substitute catalog A) (segs s)))
      = rewrite_loop tmpl catalog ns (concat (map (substitute catalog (insert b A)) (segs s)))"
    by (simp only: rewrite_loop_step [OF r nb] one_pass [OF ind b wb r])
  also have "\<dots> = Inr (concat (map (substitute catalog (insert b A \<union> set ns)) (segs s)))"
    using Cons.prems by (intro Cons.IH) auto
  finally show ?case by simp
qed

lemma substitute_none: "map (substitute catalog {}) gs = gs"
  by (simp add: substitute_def map_idI)

subsection \<open>The loop is one pass over the tokens\<close>

text \<open>
  C1 (as amended). For every SQL string, every catalog and every order in which the matched
  names are visited: when every matched name has an entry with a file path, no quoted path
  holds a backslash, and no quoted path holds another matched name as a whole word, the
  rewriter returns the SQL string in which every whole-word occurrence of every catalog name
  that is a whole token of the string stands replaced by the file path of its entry, joined
  to the storage root, in forward-slash form and in single quotes. Nothing else is changed,
  so a name that is no whole token is not substituted.
\<close>

theorem rewrite_is_single_pass:
  assumes "iteration_order order (matched_names catalog sql)" and "independent catalog order"
  shows "rewrite tmpl catalog order sql = Inr (rewrite_spec catalog sql)"
proof -
  from assms(1) have d: "distinct order" and m: "set order = matched_names catalog sql"
    by (simp_all add: iteration_order_def)
  then have w: "\<forall>n \<in> set order. all_word n"
    by (auto simp: matched_names_def dest: token_all_word)
  have "rewrite_loop tmpl catalog order (concat (map (substitute catalog {}) (segs sql)))
      = Inr (concat (map (substitute catalog ({} \<union> set order)) (segs sql)))"
    using d by (intro passes [OF assms(2) w]) auto
  then show ?thesis
    by (simp add: substitute_none concat_segs rewrite_def rewrite_spec_def m)
qed

theorem rewrite_is_single_pass_witness:
  "iteration_order [''regions'', ''sales''] (matched_names sales_and_regions ''SELECT * FROM sales JOIN regions'')
   \<and> independent sales_and_regions [''regions'', ''sales'']
   \<and> rewrite no_template sales_and_regions [''regions'', ''sales''] ''SELECT * FROM sales JOIN regions''
      = Inr (''SELECT * FROM '' @ quoted ''my-datalake/tables/0.csv'' @ '' JOIN ''
             @ quoted ''my-datalake/tables/1.parquet'')"
proof -
  have o: "iteration_order [''regions'', ''sales'']
      (matched_names sales_and_regions ''SELECT * FROM sales JOIN regions'')"
    by code_simp
  have i: "independent sales_and_regions [''regions'', ''sales'']" by code_simp
  have s: "rewrite_spec sales_and_regions ''SELECT * FROM sales JOIN regions''
      = ''SELECT * FROM '' @ quoted ''my-datalake/tables/0.csv'' @ '' JOIN ''
             @ quoted ''my-datalake/tables/1.parquet''"
    by code_simp
  from rewrite_is_single_pass [OF o i, of no_template] o i s show ?thesis by simp
qed

text \<open>
  The claim as stated fails. The catalog holds the tables \<open>sales\<close> and \<open>csv\<close>, stored as
  \<open>tables/0.csv\<close> and \<open>tables/1.csv\<close>. When the loop visits \<open>sales\<close> first, the pass
  for \<open>csv\<close> also replaces the extension of the path that the first pass wrote.
\<close>

theorem rewrite_second_pass_counterexample:
  "iteration_order [''sales'', ''csv''] (matched_names sales_and_csv ''SELECT * FROM sales JOIN csv'')
   \<and> rewrite no_template sales_and_csv [''sales'', ''csv''] ''SELECT * FROM sales JOIN csv''
      = Inr (''SELECT * FROM '' @ [CHR 0x27] @ ''my-datalake/tables/0.''
             @ quoted ''my-datalake/tables/1.csv'' @ [CHR 0x27] @ '' JOIN ''
             @ quoted ''my-datalake/tables/1.csv'')
   \<and> rewrite_spec sales_and_csv ''SELECT * FROM sales JOIN csv''
      = ''SELECT * FROM '' @ quoted ''my-datalake/tables/0.csv'' @ '' JOIN ''
             @ quoted ''my-datalake/tables/1.csv''
   \<and> rewrite no_template sales_and_csv [''sales'', ''csv''] ''SELECT * FROM sales JOIN csv''
      \<noteq> Inr (rewrite_spec sales_and_csv ''SELECT * FROM sales JOIN csv'')"
  by code_simp

subsection \<open>Setting up the structure\<close>

lemma managed_paths:
  "TABLES_DIR = ([], [''my-datalake'', ''tables''])"
  "METADATA_DIR = ([], [''my-datalake'', ''metadata''])"
  "CATALOG_FILE = ([], [''my-datalake'', ''metadata'', ''catalog.json''])"
  by (simp_all add: CATALOG_FILE_def METADATA_DIR_def TABLES_DIR_def DATA_LAKE_ROOT_def
      path_join_def Path_def splitroot_def)

lemma mkdir_parents_two:
  assumes "a \<noteq> []"
  shows "mkdir_parents ([], [a, b]) fs =
     (case fs (a @ ''/'' @ b) of
        Some Dir \<Rightarrow> (Inr (), fs)
      | Some (File x) \<Rightarrow> (Inl FileExistsError, fs)
      | None \<Rightarrow>
          (case fs a of
             None \<Rightarrow> (Inr (), fs(a \<mapsto> Dir, a @ ''/'' @ b \<mapsto> Dir))
           | Some (File x) \<Rightarrow> (Inl NotADirectoryError, fs)
           | Some Dir \<Rightarrow> (Inr (), fs(a @ ''/'' @ b \<mapsto> Dir))))"
proof -
  have one: "mkdir_parents ([], [a]) fs = (Inr (), fs(a \<mapsto> Dir))" if "fs a = None" for fs
    using that assms
    by (subst mkdir_parents.simps) (simp add: os_mkdir_def node_at_def parent_def path_str_def)
  show ?thesis
    using assms
    by (subst mkdir_parents.simps)
       (auto simp: os_mkdir_def node_at_def parent_def path_str_def then_do_def one
             split: option.splits node.splits)
qed

lemma ensure_structure_keeps:
  assumes "ensure_structure fs = (r, fs')" "fs p = Some n"
  shows "fs' p = Some n"
  using assms mkdir_parents_two [of "''my-datalake''" "''tables''"]
    mkdir_parents_two [of "''my-datalake''" "''metadata''"]
  by (auto simp: ensure_structure_def managed_paths then_do_def exists_path_def
      node_at_def path_str_def write_text_def parent_def
      split: option.splits node.splits if_splits prod.splits sum.splits)


lemma ensure_structure_new:
  assumes "ensure_structure fs = (r, fs')" "fs p = None" "fs' p \<noteq> None"
  shows "p \<in> {''my-datalake'', ''my-datalake/tables'', ''my-datalake/metadata'',
              ''my-datalake/metadata/catalog.json''}
         \<and> (p = ''my-datalake/metadata/catalog.json'' \<longrightarrow> fs' p = Some (File ''{}''))
         \<and> (p \<noteq> ''my-datalake/metadata/catalog.json'' \<longrightarrow> fs' p = Some Dir)"
  using assms mkdir_parents_two [of "''my-datalake''" "''tables''"]
    mkdir_parents_two [of "''my-datalake''" "''metadata''"]
  by (auto simp: ensure_structure_def managed_paths then_do_def exists_path_def
      node_at_def path_str_def write_text_def parent_def
      split: option.splits node.splits if_splits prod.splits sum.splits)

lemma mkdir_two_fail:
  assumes "a \<noteq> []" "mkdir_parents ([], [a, b]) fs = (Inl e, fs')"
  shows "fs' = fs"
  using assms by (auto simp: mkdir_parents_two split: option.splits node.splits)

lemma mkdir_two_ok:
  assumes "a \<noteq> []" "mkdir_parents ([], [a, b]) fs = (Inr u, fs')"
  shows "fs' (a @ ''/'' @ b) = Some Dir"
  using assms by (auto simp: mkdir_parents_two split: option.splits node.splits)

lemma mkdir_two_dir:
  assumes "a \<noteq> []" "fs (a @ ''/'' @ b) = Some Dir"
  shows "mkdir_parents ([], [a, b]) fs = (Inr (), fs)"
  using assms by (simp add: mkdir_parents_two)

lemma mkdir_two_keeps:
  assumes "a \<noteq> []" "mkdir_parents ([], [a, b]) fs = (r, fs')" "fs p = Some n"
  shows "fs' p = Some n"
  using assms by (auto simp: mkdir_parents_two split: option.splits node.splits)

lemma ensure_structure_steps:
  "ensure_structure fs =
     (case mkdir_parents ([], [''my-datalake'', ''tables'']) fs of
        (Inl e, fs1) \<Rightarrow> (Inl e, fs1)
      | (Inr u, fs1) \<Rightarrow>
          (case mkdir_parents ([], [''my-datalake'', ''metadata'']) fs1 of
             (Inl e, fs2) \<Rightarrow> (Inl e, fs2)
           | (Inr u, fs2) \<Rightarrow>
               (if fs2 ''my-datalake/metadata/catalog.json'' = None
                then (Inr (), fs2(''my-datalake/metadata/catalog.json'' \<mapsto> File ''{}''))
                else (Inr (), fs2))))"
proof (cases "mkdir_parents ([], [''my-datalake'', ''tables'']) fs")
  case (Pair r1 fs1)
  show ?thesis
  proof (cases r1)
    case (Inl e)
    with Pair show ?thesis
      by (simp add: ensure_structure_def managed_paths then_do_def)
  next
    case (Inr u)
    show ?thesis
    proof (cases "mkdir_parents ([], [''my-datalake'', ''metadata'']) fs1")
      case P2: (Pair r2 fs2)
      show ?thesis
      proof (cases r2)
        case (Inl e)
        with Pair Inr P2 show ?thesis
          by (simp add: ensure_structure_def managed_paths then_do_def)
      next
        case I2: (Inr u2)
        from mkdir_two_ok [of "''my-datalake''" "''metadata''" fs1 u2 fs2] P2 I2
        have "fs2 ''my-datalake/metadata'' = Some Dir" by simp
        with Pair Inr P2 I2 show ?thesis
          by (simp add: ensure_structure_def managed_paths then_do_def exists_path_def
              node_at_def path_str_def write_text_def parent_def split: option.splits)
      qed
    qed
  qed
qed


lemma ensure_structure_idem:
  "ensure_structure (snd (ensure_structure fs)) = ensure_structure fs"
proof (cases "mkdir_parents ([], [''my-datalake'', ''tables'']) fs")
  case (Pair r1 fs1)
  show ?thesis
  proof (cases r1)
    case (Inl e)
    with Pair have "fs1 = fs"
      using mkdir_two_fail [of "''my-datalake''" "''tables''" fs e fs1] by simp
    with Pair Inl show ?thesis
      by (simp add: ensure_structure_steps)
  next
    case (Inr u)
    with Pair have t1: "fs1 ''my-datalake/tables'' = Some Dir"
      using mkdir_two_ok [of "''my-datalake''" "''tables''" fs u fs1] by simp
    then have m1: "mkdir_parents ([], [''my-datalake'', ''tables'']) fs1 = (Inr (), fs1)"
      using mkdir_two_dir [of "''my-datalake''" fs1 "''tables''"] by simp
    show ?thesis
    proof (cases "mkdir_parents ([], [''my-datalake'', ''metadata'']) fs1")
      case P2: (Pair r2 fs2)
      show ?thesis
      proof (cases r2)
        case (Inl e)
        with P2 have "fs2 = fs1"
          using mkdir_two_fail [of "''my-datalake''" "''metadata''" fs1 e fs2] by simp
        with Pair Inr P2 Inl m1 show ?thesis
          by (simp add: ensure_structure_steps)
      next
        case I2: (Inr u2)
        from P2 I2 have md: "fs2 ''my-datalake/metadata'' = Some Dir"
          using mkdir_two_ok [of "''my-datalake''" "''metadata''" fs1 u2 fs2] by simp
        from P2 t1 have td: "fs2 ''my-datalake/tables'' = Some Dir"
          using mkdir_two_keeps [of "''my-datalake''" "''metadata''" fs1 r2 fs2] by simp
        define fs3 where "fs3 = (if fs2 ''my-datalake/metadata/catalog.json'' = None
                then fs2(''my-datalake/metadata/catalog.json'' \<mapsto> File ''{}'') else fs2)"
        have e1: "ensure_structure fs = (Inr (), fs3)"
          using Pair Inr P2 I2 by (simp add: ensure_structure_steps fs3_def)
        have t3: "fs3 ''my-datalake/tables'' = Some Dir"
          and m3: "fs3 ''my-datalake/metadata'' = Some Dir"
          and c3: "fs3 ''my-datalake/metadata/catalog.json'' \<noteq> None"
          using td md by (auto simp: fs3_def)
        have "mkdir_parents ([], [''my-datalake'', ''tables'']) fs3 = (Inr (), fs3)"
          using mkdir_two_dir [of "''my-datalake''" fs3 "''tables''"] t3 by simp
        moreover have "mkdir_parents ([], [''my-datalake'', ''metadata'']) fs3 = (Inr (), fs3)"
          using mkdir_two_dir [of "''my-datalake''" fs3 "''metadata''"] m3 by simp
        ultimately have "ensure_structure fs3 = (Inr (), fs3)"
          using c3 by (auto simp: ensure_structure_steps)
        with e1 show ?thesis by simp
      qed
    qed
  qed
qed

lemma catalog_of_idem: "catalog_of (snd (ensure_structure fs)) = catalog_of fs"
  by (simp add: catalog_of_def ensure_structure_idem)

lemma query_sql_store:
  "snd (query_sql engine tmpl order sql fs) =
     (case fst (query_sql echo_engine tmpl order sql fs) of
        Inl e \<Rightarrow> snd (ensure_structure fs)
      | Inr sql' \<Rightarrow> snd (engine sql' (snd (ensure_structure fs))))"
  by (auto simp: query_sql_def then_do_def lift_def echo_engine_def
      split: prod.splits sum.splits)

lemma loads_empty_object: "json_loads ''{}'' = Inr (JObj [])"
  by code_simp

lemma initialised_ensure_structure:
  assumes "initialised fs"
  shows "ensure_structure fs =
     (Inr (), if fs ''my-datalake/metadata/catalog.json'' = None
              then fs(''my-datalake/metadata/catalog.json'' \<mapsto> File ''{}'') else fs)"
proof -
  have "mkdir_parents ([], [''my-datalake'', ''tables'']) fs = (Inr (), fs)"
    using mkdir_two_dir [of "''my-datalake''" fs "''tables''"] assms
    by (simp add: initialised_def)
  moreover have "mkdir_parents ([], [''my-datalake'', ''metadata'']) fs = (Inr (), fs)"
    using mkdir_two_dir [of "''my-datalake''" fs "''metadata''"] assms
    by (simp add: initialised_def)
  ultimately show ?thesis
    by (simp add: ensure_structure_steps)
qed

lemma load_catalog_fresh_document:
  "load_catalog (fs(''my-datalake/metadata/catalog.json'' \<mapsto> File ''{}'')) = Inr (JObj [])"
  by (simp add: load_catalog_def read_text_def managed_paths node_at_def path_str_def
      loads_empty_object)

subsection \<open>Adding a name that exists\<close>

text \<open>
  C5. On a store whose layout exists, for every catalog and every logical name already in
  it, \<^verbatim>\<open>add_table\<close> with that name raises the \<^verbatim>\<open>ValueError\<close> that reports the
  existing table and leaves the store as it was: the catalog document and every other
  file and directory are unchanged.
\<close>

theorem add_table_duplicate_name:
  assumes "initialised fs" and "catalog_of fs = Inr (JObj kvs)"
    and "logical_name \<in> set (map fst kvs)"
  shows "add_table reader run logical_name source_file_path description_path fs
     = (Inl (ValueError (''Table '' @ quoted logical_name @ '' already exists.'')), fs)"
proof (cases "fs ''my-datalake/metadata/catalog.json'' = None")
  case True
  with assms(1,2) have "kvs = []"
    by (simp add: catalog_of_def initialised_ensure_structure load_catalog_fresh_document)
  with assms(3) show ?thesis by simp
next
  case False
  with assms(1) have e: "ensure_structure fs = (Inr (), fs)"
    by (auto simp: initialised_ensure_structure)
  with assms(2) have "load_catalog fs = Inr (JObj kvs)"
    by (simp add: catalog_of_def)
  with e assms(3) show ?thesis
    by (simp add: add_table_def then_do_def lift_def py_contains_def)
qed

theorem add_table_duplicate_name_witness:
  "initialised one_table
   \<and> catalog_of one_table = Inr (JObj [(''orders'', orders_entry)])
   \<and> ''orders'' \<in> set (map fst [(''orders'', orders_entry)])
   \<and> add_table two_columns git_ok ''orders'' ''returns.parquet'' None one_table
       = (Inl (ValueError (''Table '' @ quoted ''orders'' @ '' already exists.'')), one_table)"
proof -
  have i: "initialised one_table" by code_simp
  have c: "catalog_of one_table = Inr (JObj [(''orders'', orders_entry)])" by code_simp
  have n: "''orders'' \<in> set (map fst [(''orders'', orders_entry)])" by simp
  from add_table_duplicate_name [OF i c n] i c n show ?thesis by simp
qed

subsection \<open>A source file of another type\<close>

text \<open>
  C6. The extension is the suffix of the source path in lower case. For every store whose
  catalog loads and every source path whose extension is neither \<open>.csv\<close> nor \<open>.parquet\<close>,
  \<^verbatim>\<open>add_table\<close> raises a \<^verbatim>\<open>ValueError\<close>, the one that reports the unsupported file type
  unless the name exists already, and the store it leaves is the one \<^verbatim>\<open>ensure_structure\<close>
  left: the catalog is the same, every node that existed is unchanged, and a node that did
  not exist is still missing, or is a directory, or is the empty catalog document. No file
  has been copied.
\<close>

theorem add_table_unsupported_type:
  assumes "catalog_of fs = Inr (JObj kvs)"
    and "lower (suffix (Path source_file_path)) \<noteq> ''.csv''"
    and "lower (suffix (Path source_file_path)) \<noteq> ''.parquet''"
  shows "add_table reader run logical_name source_file_path description_path fs
       = (Inl (ValueError
                 (if logical_name \<in> set (map fst kvs)
                  then ''Table '' @ quoted logical_name @ '' already exists.''
                  else ''Unsupported file type. Only .csv and .parquet are supported.'')),
          snd (ensure_structure fs))
     \<and> catalog_of (snd (ensure_structure fs)) = Inr (JObj kvs)
     \<and> (\<forall>p n. fs p = Some n \<longrightarrow> snd (ensure_structure fs) p = Some n)
     \<and> (\<forall>p. fs p = None \<longrightarrow>
            snd (ensure_structure fs) p = None \<or> snd (ensure_structure fs) p = Some Dir
            \<or> (p = ''my-datalake/metadata/catalog.json''
                \<and> snd (ensure_structure fs) p = Some (File ''{}'')))"
proof -
  obtain r fs1 where e: "ensure_structure fs = (r, fs1)"
    by (cases "ensure_structure fs")
  with assms(1) obtain u where r: "r = Inr u" and l: "load_catalog fs1 = Inr (JObj kvs)"
    by (cases r) (simp_all add: catalog_of_def)
  have "add_table reader run logical_name source_file_path description_path fs
       = (Inl (ValueError
                 (if logical_name \<in> set (map fst kvs)
                  then ''Table '' @ quoted logical_name @ '' already exists.''
                  else ''Unsupported file type. Only .csv and .parquet are supported.'')),
          fs1)"
    using e r l assms(2,3)
    by (simp add: add_table_def then_do_def lift_def py_contains_def py_len_def
        file_format_of_def Let_def)
  moreover have "catalog_of fs1 = Inr (JObj kvs)"
    using catalog_of_idem [of fs] e assms(1) by simp
  moreover have "fs1 p = Some n" if "fs p = Some n" for p n
    using ensure_structure_keeps [OF e that] .
  moreover have "fs1 p = None \<or> fs1 p = Some Dir
      \<or> (p = ''my-datalake/metadata/catalog.json'' \<and> fs1 p = Some (File ''{}''))"
    if "fs p = None" for p
    using ensure_structure_new [OF e that] by (cases "fs1 p") auto
  ultimately show ?thesis using e by simp
qed

theorem add_table_unsupported_type_witness:
  "catalog_of fresh = Inr (JObj [])
   \<and> lower (suffix (Path ''orders.XLSX'')) \<noteq> ''.csv''
   \<and> lower (suffix (Path ''orders.XLSX'')) \<noteq> ''.parquet''
   \<and> add_table two_columns git_ok ''orders'' ''orders.XLSX'' None fresh
       = (Inl (ValueError ''Unsupported file type. Only .csv and .parquet are supported.''),
          snd (ensure_structure fresh))
   \<and> snd (ensure_structure fresh) ''orders.csv'' = Some (File ''id,name'')
   \<and> snd (ensure_structure fresh) ''my-datalake/tables/0.XLSX'' = None
   \<and> snd (ensure_structure fresh) ''my-datalake/tables/0.xlsx'' = None"
proof -
  have c: "catalog_of fresh = Inr (JObj [])" by code_simp
  have x: "lower (suffix (Path ''orders.XLSX'')) \<noteq> ''.csv''" by code_simp
  have y: "lower (suffix (Path ''orders.XLSX'')) \<noteq> ''.parquet''" by code_simp
  have k: "fresh ''orders.csv'' = Some (File ''id,name'')" by code_simp
  have n1: "snd (ensure_structure fresh) ''my-datalake/tables/0.XLSX'' = None" by code_simp
  have n2: "snd (ensure_structure fresh) ''my-datalake/tables/0.xlsx'' = None" by code_simp
  from add_table_unsupported_type [OF c x y, of two_columns git_ok "''orders''" None] c x y k n1 n2
  show ?thesis by simp
qed

subsection \<open>Queries and the catalog\<close>

text \<open>
  C10 (as amended). \<^verbatim>\<open>query_sql\<close> itself writes nothing but what \<^verbatim>\<open>ensure_structure\<close>
  sets up: for every SQL string and every store, the store after the call is the one the
  engine leaves when it runs the rewritten statement on the store that
  \<^verbatim>\<open>ensure_structure\<close> left (and that store itself when the call fails before the
  engine). So whenever the engine's run of the rewritten statement changes no file, as for
  a statement that only reads, the catalog that the operations read after the call is the
  catalog they read before it, and every node that existed before, the catalog document
  and the table files among them, is unchanged.
\<close>

theorem query_sql_store_is_the_engines:
  "snd (query_sql engine tmpl order sql fs) =
     (case fst (query_sql echo_engine tmpl order sql fs) of
        Inl e \<Rightarrow> snd (ensure_structure fs)
      | Inr sql' \<Rightarrow> snd (engine sql' (snd (ensure_structure fs))))
   \<and> ((\<forall>sql'. fst (query_sql echo_engine tmpl order sql fs) = Inr sql'
          \<longrightarrow> snd (engine sql' (snd (ensure_structure fs))) = snd (ensure_structure fs))
        \<longrightarrow> catalog_of (snd (query_sql engine tmpl order sql fs)) = catalog_of fs
          \<and> (\<forall>p n. fs p = Some n \<longrightarrow> snd (query_sql engine tmpl order sql fs) p = Some n))"
proof -
  have keeps: "snd (ensure_structure fs) p = Some n" if "fs p = Some n" for p n
    using ensure_structure_keeps [of fs "fst (ensure_structure fs)" "snd (ensure_structure fs)"]
      that by simp
  have "snd (query_sql engine tmpl order sql fs) = snd (ensure_structure fs)"
    if "\<forall>sql'. fst (query_sql echo_engine tmpl order sql fs) = Inr sql'
          \<longrightarrow> snd (engine sql' (snd (ensure_structure fs))) = snd (ensure_structure fs)"
    using that
    by (cases "fst (query_sql echo_engine tmpl order sql fs)") (simp_all add: query_sql_store)
  then show ?thesis
    using keeps by (simp add: query_sql_store [of engine] catalog_of_idem)
qed

theorem query_sql_store_is_the_engines_witness:
  "fst (query_sql echo_engine no_template [''orders''] ''SELECT * FROM orders'' one_table)
       = Inr (''SELECT * FROM '' @ quoted ''my-datalake/tables/0.csv'')
   \<and> snd (echo_engine (''SELECT * FROM '' @ quoted ''my-datalake/tables/0.csv'')
           (snd (ensure_structure one_table))) = snd (ensure_structure one_table)
   \<and> one_table ''my-datalake/metadata/catalog.json''
       = Some (File (json_dumps (JObj [(''orders'', orders_entry)])))
   \<and> catalog_of (snd (query_sql echo_engine no_template [''orders''] ''SELECT * FROM orders''
                       one_table))
       = catalog_of one_table
   \<and> snd (query_sql echo_engine no_template [''orders''] ''SELECT * FROM orders'' one_table)
        ''my-datalake/metadata/catalog.json''
       = Some (File (json_dumps (JObj [(''orders'', orders_entry)])))"
proof -
  have q: "fst (query_sql echo_engine no_template [''orders''] ''SELECT * FROM orders'' one_table)
       = Inr (''SELECT * FROM '' @ quoted ''my-datalake/tables/0.csv'')"
    by code_simp
  have e: "snd (echo_engine s fs) = fs" for s fs
    by (simp add: echo_engine_def)
  have d: "one_table ''my-datalake/metadata/catalog.json''
     = Some (File (json_dumps (JObj [(''orders'', orders_entry)])))"
    by code_simp
  have h: "\<forall>sql'. fst (query_sql echo_engine no_template [''orders''] ''SELECT * FROM orders''
                one_table) = Inr sql'
          \<longrightarrow> snd (echo_engine sql' (snd (ensure_structure one_table)))
              = snd (ensure_structure one_table)"
    by (simp add: e)
  from query_sql_store_is_the_engines [of echo_engine no_template "[''orders'']"
      "''SELECT * FROM orders''" one_table, THEN conjunct2, THEN mp, OF h]
    q e d
  show ?thesis by simp
qed

text \<open>
  The claim as stated fails: handed the statement that copies a query result to the
  catalog document, an engine that runs it overwrites the document, and the catalog that
  held \<open>orders\<close> reads as the number 42.
\<close>

theorem query_sql_copy_counterexample:
  "catalog_of one_table = Inr (JObj [(''orders'', orders_entry)])
   \<and> iteration_order [] (matched_names [(''orders'', orders_entry)] copy_statement)
   \<and> fst (query_sql copying_engine no_template [] copy_statement one_table) = Inr copy_statement
   \<and> snd (query_sql copying_engine no_template [] copy_statement one_table)
        ''my-datalake/metadata/catalog.json'' = Some (File ''42'')
   \<and> catalog_of (snd (query_sql copying_engine no_template [] copy_statement one_table))
       = Inr (JInt 42)
   \<and> catalog_of (snd (query_sql copying_engine no_template [] copy_statement one_table))
       \<noteq> catalog_of one_table"
  by code_simp

subsection \<open>Decoding what was encoded\<close>

lemma hex_val_hex_char: "d < 16 \<Longrightarrow> hex_val (hex_char d) = Some d"
proof -
  assume "d < 16"
  then have "d \<in> set [0 ..< 16]" by simp
  then show ?thesis
    unfolding upt_conv_Cons_Cons
    by (simp add: upt_rec [of _ 16] hex_val_def hex_char_def) (auto simp: hex_val_def hex_char_def)
qed

lemma named_chars:
  "char_of (34::nat) = CHR 0x22" "char_of (92::nat) = CHR 0x5C" "char_of (10::nat) = CHR 0x0A"
  "char_of (13::nat) = CHR 0x0D" "char_of (9::nat) = CHR 0x09" "char_of (8::nat) = CHR 0x08"
  "char_of (12::nat) = CHR 0x0C"
  by code_simp+

lemma scan_unicode_escape:
  assumes "n < 256"
  shows "scan_string (CHR 0x5C # CHR ''u'' # CHR ''0'' # CHR ''0'' # hex_char (n div 16)
           # hex_char (n mod 16) # t) = cons_result (char_of n) (scan_string t)"
proof -
  from assms have "n div 16 < 16" by simp
  then have "hex4 CHR ''0'' CHR ''0'' (hex_char (n div 16)) (hex_char (n mod 16)) = Some n"
    by (simp add: hex4_def hex_val_hex_char) (simp add: hex_val_def)
  with assms show ?thesis by simp
qed

lemma scan_escape_char:
  "scan_string (escape_char c @ t) = cons_result c (scan_string t)"
proof -
  define n where "n = (of_char c :: nat)"
  have c: "c = char_of n" by (simp add: n_def)
  have lt: "n < 256" by (simp add: n_def)
  have q: "c \<noteq> CHR 0x22" if "n \<noteq> 34" using that by (auto simp: n_def)
  have b: "c \<noteq> CHR 0x5C" if "n \<noteq> 92" using that by (auto simp: n_def)
  consider "n = 34" | "n = 92" | "n = 10" | "n = 13" | "n = 9" | "n = 8" | "n = 12"
    | "32 \<le> n" "n \<le> 126" "n \<noteq> 34" "n \<noteq> 92"
    | "n \<noteq> 34" "n \<noteq> 92" "n \<noteq> 10" "n \<noteq> 13" "n \<noteq> 9" "n \<noteq> 8" "n \<noteq> 12" "\<not> (32 \<le> n \<and> n \<le> 126)"
    by blast
  then show ?thesis
  proof cases
    case 8
    then have "escape_char c = [c]"
      by (simp add: escape_char_def n_def [symmetric])
    moreover have "\<not> (of_char c :: nat) < 32" using 8 by (simp add: n_def)
    ultimately show ?thesis using q b 8 by simp
  next
    case 9
    then have "escape_char c = [CHR 0x5C, CHR ''u'', CHR ''0'', CHR ''0'', hex_char (n div 16),
        hex_char (n mod 16)]"
      by (simp add: escape_char_def n_def [symmetric])
    then show ?thesis
      using scan_unicode_escape [OF lt, of t] c by simp
  qed (simp_all add: c named_chars escape_char_def unescape_def)
qed

lemma scan_encoded:
  "scan_string (concat (map escape_char s) @ CHR 0x22 # rest) = Some (s, rest)"
  by (induction s) (simp_all add: scan_escape_char cons_result_def)

lemma encode_string_head: "encode_string s = CHR 0x22 # concat (map escape_char s) @ [CHR 0x22]"
  by (simp add: encode_string_def)

lemma digit_char_zero: "digit_char 0 = CHR ''0''"
  by code_simp

lemma of_char_digit_char: "d < 10 \<Longrightarrow> (of_char (digit_char d) :: nat) = 48 + d"
  by (simp add: digit_char_def)

lemma is_digit_digit_char: "d < 10 \<Longrightarrow> is_digit (digit_char d)"
  by (simp add: is_digit_def of_char_digit_char)

lemma digits_all_digit: "\<forall>c \<in> set (digits n). is_digit c"
proof (induction n rule: digits.induct)
  case (1 n)
  show ?case
  proof (cases "n < 10")
    case True
    then show ?thesis by (subst digits.simps) (simp add: is_digit_digit_char)
  next
    case False
    with 1 show ?thesis by (subst digits.simps) (simp add: is_digit_digit_char)
  qed
qed

lemma digits_not_empty: "digits n \<noteq> []"
  by (subst digits.simps) simp

lemma digits_val_snoc:
  "digits_val (ds @ [c]) = 10 * digits_val ds + ((of_char c :: nat) - 48)"
  by (simp add: digits_val_def)

lemma digits_val_digits: "digits_val (digits n) = n"
proof (induction n rule: digits.induct)
  case (1 n)
  show ?case
  proof (cases "n < 10")
    case True
    then show ?thesis
      by (subst digits.simps) (simp add: digits_val_def of_char_digit_char)
  next
    case False
    with 1 show ?thesis
      by (subst digits.simps) (simp add: digits_val_snoc of_char_digit_char)
  qed
qed

lemma hd_digits_zero: "hd (digits n) = CHR ''0'' \<longleftrightarrow> n = 0"
proof (induction n rule: digits.induct)
  case (1 n)
  show ?case
  proof (cases "n < 10")
    case True
    have "digit_char n = CHR ''0'' \<longleftrightarrow> n = 0"
    proof
      assume "digit_char n = CHR ''0''"
      then have "(of_char (digit_char n) :: nat) = of_char CHR ''0''" by simp
      with True show "n = 0" by (simp add: of_char_digit_char)
    next
      assume "n = 0"
      then show "digit_char n = CHR ''0''" by (simp add: digit_char_zero)
    qed
    with True show ?thesis by (subst digits.simps) simp
  next
    case False
    with 1 have "hd (digits (n div 10)) = CHR ''0'' \<longleftrightarrow> n div 10 = 0" by simp
    moreover from False have "n div 10 \<noteq> 0" by simp
    ultimately show ?thesis using False digits_not_empty [of "n div 10"]
      by (subst digits.simps) simp
  qed
qed

lemma takeWhile_digits:
  assumes "ends_number rest"
  shows "takeWhile is_digit (digits n @ rest) = digits n"
proof -
  have "takeWhile is_digit rest = []"
    using assms by (cases rest) (simp_all add: ends_number_def)
  then show ?thesis
    using digits_all_digit [of n] by (simp add: takeWhile_append2)
qed

lemma scan_nat_digits:
  assumes "ends_number rest"
  shows "scan_nat (digits n @ rest) = Some (n, rest)"
proof (cases "n = 0")
  case True
  have "digits 0 = ''0''" by (subst digits.simps) (simp add: digit_char_zero)
  with True assms show ?thesis
    by (cases rest) (simp_all add: scan_nat_def digits_val_def ends_number_def)
next
  case False
  obtain d ds where ds: "digits n = d # ds"
    using digits_not_empty [of n] by (cases "digits n") auto
  with False hd_digits_zero [of n] have "d \<noteq> CHR ''0''" by simp
  then have "take 1 (digits n @ rest) \<noteq> ''0''" using ds by simp
  moreover have "take 1 rest \<noteq> ''.'' \<and> take 1 rest \<noteq> ''e'' \<and> take 1 rest \<noteq> ''E''"
    using assms by (cases rest) (auto simp: ends_number_def)
  ultimately show ?thesis
    using takeWhile_digits [OF assms, of n] digits_not_empty [of n]
    by (simp add: scan_nat_def Let_def digits_val_digits)
qed

lemma hd_digits_is_digit: "is_digit (hd (digits n))"
  using digits_all_digit [of n] digits_not_empty [of n] by (cases "digits n") auto

lemma scan_number_show_int:
  assumes "ends_number rest"
  shows "scan_number (show_int i @ rest) = Some (JInt i, rest)"
proof (cases "i < 0")
  case True
  then show ?thesis
    using scan_nat_digits [OF assms, of "nat (- i)"]
    by (simp add: scan_number_def show_int_def)
next
  case False
  obtain d ds where ds: "digits (nat i) = d # ds"
    using digits_not_empty [of "nat i"] by (cases "digits (nat i)") auto
  with hd_digits_is_digit [of "nat i"] have "is_digit d" by simp
  then have "d \<noteq> CHR ''-''" by (auto simp: is_digit_def)
  with False ds scan_nat_digits [OF assms, of "nat i"] show ?thesis
    by (simp add: scan_number_def show_int_def)
qed

lemma update_fresh_key: "k \<notin> set (map fst al) \<Longrightarrow> AList.update k v al = al @ [(k, v)]"
  by (induction al) auto

lemma foldl_update_distinct:
  assumes "distinct (map fst kvs)" "set (map fst acc) \<inter> set (map fst kvs) = {}"
  shows "foldl (\<lambda>d kv. AList.update (fst kv) (snd kv) d) acc kvs = acc @ kvs"
  using assms
proof (induction kvs arbitrary: acc)
  case Nil
  then show ?case by simp
next
  case (Cons kv kvs)
  from Cons.prems have "fst kv \<notin> set (map fst acc)" by auto
  then have u: "AList.update (fst kv) (snd kv) acc = acc @ [kv]"
    by (simp add: update_fresh_key)
  from Cons.prems have "set (map fst (acc @ [kv])) \<inter> set (map fst kvs) = {}" by auto
  with Cons.IH [of "acc @ [kv]"] Cons.prems u show ?case by simp
qed

lemma dict_of_distinct: "distinct (map fst kvs) \<Longrightarrow> dict_of kvs = kvs"
  using foldl_update_distinct [of kvs "[]"] by (simp add: dict_of_def)

lemma skip_ws_newline_indent: "skip_ws (newline_indent l @ x) = skip_ws x"
  by (simp add: skip_ws_def newline_indent_def is_ws_def dropWhile_append)

lemma skip_ws_space: "skip_ws (CHR '' '' # x) = skip_ws x"
  by (simp add: skip_ws_def is_ws_def)

lemma skip_ws_stop: "\<not> is_ws c \<Longrightarrow> skip_ws (c # x) = c # x"
  by (simp add: skip_ws_def)

lemma dumps_items_cons:
  "dumps_items l (kv # kvs) =
     encode_string (fst kv) @ '': '' @ dumps_at l (snd kv)
       @ (if kvs = [] then [] else '','' @ newline_indent l @ dumps_items l kvs)"
  by (cases kvs) simp_all

lemma show_int_head: "\<exists>c cs. show_int i = c # cs \<and> (c = CHR ''-'' \<or> is_digit c)"
proof (cases "i < 0")
  case True
  then show ?thesis by (simp add: show_int_def)
next
  case False
  obtain d ds where "digits (nat i) = d # ds"
    using digits_not_empty [of "nat i"] by (cases "digits (nat i)") auto
  with False hd_digits_is_digit [of "nat i"] show ?thesis by (simp add: show_int_def)
qed

lemma number_head_other:
  assumes "c = CHR ''-'' \<or> is_digit c"
  shows "c \<noteq> CHR 0x22 \<and> c \<noteq> CHR ''{'' \<and> c \<noteq> CHR ''n'' \<and> \<not> is_ws c"
  using assms by (auto simp: is_digit_def is_ws_def)

lemma parse_value_number:
  assumes "c = CHR ''-'' \<or> is_digit c"
  shows "parse_value (Suc n) (c # cs) = scan_number (c # cs)"
  using number_head_other [OF assms] by simp

lemma dumps_at_head: "\<exists>c cs. dumps_at l v = c # cs \<and> \<not> is_ws c"
proof (cases v)
  case (JInt i)
  with show_int_head [of i] number_head_other show ?thesis by auto
next
  case (JObj kvs)
  then show ?thesis by (cases kvs) (simp_all add: is_ws_def)
qed (simp_all add: is_ws_def encode_string_def)

lemma skip_ws_dumps_at: "skip_ws (dumps_at l v @ x) = dumps_at l v @ x"
  using dumps_at_head [of l v] by (auto simp: skip_ws_stop)

lemma ends_number_simps:
  "ends_number (newline_indent m @ x)" "ends_number (CHR '','' # x)" "ends_number []"
  by (simp_all add: ends_number_def newline_indent_def is_digit_def)

lemma parse_members_step:
  assumes "parse_value n (dumps_at l v @ tail) = Some (v, tail)"
  shows "parse_members (Suc n) (encode_string k @ '': '' @ dumps_at l v @ tail) =
     (case skip_ws tail of
        [] \<Rightarrow> None
      | e # r4 \<Rightarrow>
          if e = CHR ''}'' then Some ([(k, v)], r4)
          else if e = CHR '','' then
            (case parse_members n (skip_ws r4) of
               None \<Rightarrow> None
             | Some (kvs, r5) \<Rightarrow> Some ((k, v) # kvs, r5))
          else None)"
  using assms
  by (simp add: encode_string_def scan_encoded skip_ws_stop is_ws_def skip_ws_dumps_at
      skip_ws_space skip_ws_stop [of "CHR '':''"] del: parse_value.simps)


lemma dumps_items_not_empty: "kvs \<noteq> [] \<Longrightarrow> dumps_items l kvs \<noteq> []"
  by (cases kvs) (simp_all add: dumps_items_cons encode_string_def)

lemma dumps_items_head:
  "kvs \<noteq> [] \<Longrightarrow> \<exists>cs. dumps_items l kvs = CHR 0x22 # cs"
  by (cases kvs) (simp_all add: dumps_items_cons encode_string_def)

lemma skip_ws_dumps_items:
  "kvs \<noteq> [] \<Longrightarrow> skip_ws (dumps_items l kvs @ x) = dumps_items l kvs @ x"
  using dumps_items_head [of kvs l] by (auto simp: skip_ws_stop is_ws_def)

lemma parse_printed:
  "(\<forall>v l rest. wf_json v \<and> length (dumps_at l v) \<le> n \<and> ends_number rest
        \<longrightarrow> parse_value n (dumps_at l v @ rest) = Some (v, rest))
   \<and> (\<forall>kvs l m rest. kvs \<noteq> [] \<and> wf_items kvs \<and> length (dumps_items l kvs) \<le> n
        \<longrightarrow> parse_members n (dumps_items l kvs @ newline_indent m @ CHR ''}'' # rest)
            = Some (kvs, rest))"
proof (induction n)
  case 0
  have "dumps_at l v \<noteq> []" for l v
    using dumps_at_head [of l v] by auto
  then show ?case by (auto simp: dumps_items_not_empty)
next
  case (Suc n)
  have V: "parse_value n (dumps_at l v @ rest) = Some (v, rest)"
    if "wf_json v" "length (dumps_at l v) \<le> n" "ends_number rest" for v l rest
    using Suc that by blast
  have M: "parse_members n (dumps_items l kvs @ newline_indent m @ CHR ''}'' # rest)
            = Some (kvs, rest)"
    if "kvs \<noteq> []" "wf_items kvs" "length (dumps_items l kvs) \<le> n" for kvs l m rest
    using Suc that by blast
  have val_case: "parse_value (Suc n) (dumps_at l v @ rest) = Some (v, rest)"
    if wf: "wf_json v" and len: "length (dumps_at l v) \<le> Suc n" and e: "ends_number rest"
    for v l rest
  proof (cases v)
    case JNull
    then show ?thesis by simp
  next
    case (JInt i)
    obtain c cs where h: "show_int i = c # cs" "c = CHR ''-'' \<or> is_digit c"
      using show_int_head [of i] by blast
    then have "parse_value (Suc n) (show_int i @ rest) = scan_number (show_int i @ rest)"
      using parse_value_number [of c n "cs @ rest"] by simp
    with JInt e show ?thesis by (simp add: scan_number_show_int)
  next
    case (JStr s)
    then show ?thesis by (simp add: encode_string_def scan_encoded)
  next
    case (JObj kvs)
    show ?thesis
    proof (cases kvs)
      case Nil
      with JObj show ?thesis by (simp add: skip_ws_stop is_ws_def)
    next
      case (Cons kv kvs')
      from JObj Cons len have "length (dumps_items (Suc l) kvs) \<le> n" by simp
      moreover from JObj wf have "wf_items kvs" "distinct (map fst kvs)" by simp_all
      ultimately have m: "parse_members n
          (dumps_items (Suc l) kvs @ newline_indent l @ CHR ''}'' # rest) = Some (kvs, rest)"
        using M [of kvs "Suc l" l rest] Cons by simp
      obtain cs where cs: "dumps_items (Suc l) kvs = CHR 0x22 # cs"
        using dumps_items_head [of kvs "Suc l"] Cons by auto
      have "skip_ws (newline_indent (Suc l) @ dumps_items (Suc l) kvs @ newline_indent l
              @ CHR ''}'' # rest)
            = CHR 0x22 # cs @ newline_indent l @ CHR ''}'' # rest"
        by (simp add: skip_ws_newline_indent cs skip_ws_stop is_ws_def)
      with m cs JObj Cons \<open>distinct (map fst kvs)\<close> show ?thesis
        by (simp add: dict_of_distinct del: parse_members.simps dumps_items.simps)
    qed
  qed
  have mem_case: "parse_members (Suc n) (dumps_items l kvs @ newline_indent m @ CHR ''}'' # rest)
            = Some (kvs, rest)"
    if ne: "kvs \<noteq> []" and wf: "wf_items kvs" and len: "length (dumps_items l kvs) \<le> Suc n"
    for kvs l m rest
  proof -
    obtain kv kvs' where kvs: "kvs = kv # kvs'" using ne by (cases kvs) auto
    define tail where "tail = (if kvs' = [] then [] else '','' @ newline_indent l @ dumps_items l kvs')
        @ newline_indent m @ CHR ''}'' # rest"
    have whole: "dumps_items l kvs @ newline_indent m @ CHR ''}'' # rest
        = encode_string (fst kv) @ '': '' @ dumps_at l (snd kv) @ tail"
      by (simp add: kvs dumps_items_cons tail_def)
    from len have lv: "length (dumps_at l (snd kv)) \<le> n"
      by (simp add: kvs dumps_items_cons encode_string_def)
    have "ends_number tail"
      by (simp add: tail_def ends_number_simps)
    with wf lv have pv: "parse_value n (dumps_at l (snd kv) @ tail) = Some (snd kv, tail)"
      using V [of "snd kv" l tail] by (simp add: kvs)
    show ?thesis
    proof (cases "kvs' = []")
      case True
      then have "skip_ws tail = CHR ''}'' # rest"
        by (simp add: tail_def skip_ws_newline_indent skip_ws_stop is_ws_def)
      with True show ?thesis
        unfolding whole parse_members_step [OF pv] by (simp add: kvs)
    next
      case False
      from len have "length (dumps_items l kvs') \<le> n"
        using False by (simp add: kvs dumps_items_cons encode_string_def)
      with wf False have "parse_members n (dumps_items l kvs' @ newline_indent m @ CHR ''}'' # rest)
            = Some (kvs', rest)"
        using M [of kvs' l m rest] by (simp add: kvs)
      moreover have "skip_ws tail = CHR '','' # newline_indent l @ dumps_items l kvs'
          @ newline_indent m @ CHR ''}'' # rest"
        using False by (simp add: tail_def skip_ws_stop is_ws_def)
      ultimately show ?thesis
        unfolding whole parse_members_step [OF pv]
        using False by (simp add: kvs skip_ws_newline_indent skip_ws_dumps_items)
    qed
  qed
  from val_case mem_case show ?case by blast
qed

lemma loads_dumps:
  assumes "wf_json v"
  shows "json_loads (json_dumps v) = Inr v"
proof -
  have "parse_value (Suc (length (dumps_at 0 v))) (dumps_at 0 v @ []) = Some (v, [])"
    using parse_printed [of "Suc (length (dumps_at 0 v))", THEN conjunct1, rule_format,
        of v 0 "[]"] assms
    by (simp add: ends_number_simps del: parse_value.simps)
  then show ?thesis
    using skip_ws_dumps_at [of 0 v "[]"]
    by (simp add: json_loads_def json_dumps_def skip_ws_def del: parse_value.simps)
qed

subsection \<open>Save, load, save\<close>

text \<open>
  C9. For every catalog value (a dictionary of the values a catalog document holds), the
  document that \<^verbatim>\<open>save_catalog\<close> writes decodes to that value, so saving what was
  loaded writes the same text again: after a save, \<^verbatim>\<open>save_catalog(load_catalog())\<close>
  leaves the store, and with it the document, exactly as it is, the first time and the
  second time.
\<close>

theorem save_load_save_identical:
  assumes "wf_json catalog" and "save_catalog catalog fs = (Inr (), fs1)"
  shows "fs1 ''my-datalake/metadata/catalog.json'' = Some (File (json_dumps catalog))
     \<and> load_catalog fs1 = Inr catalog
     \<and> resave fs1 = (Inr (), fs1)
     \<and> resave (snd (resave fs1)) = (Inr (), fs1)"
proof -
  from assms(2) have fs1: "fs1 = fs(''my-datalake/metadata/catalog.json'' \<mapsto> File (json_dumps catalog))"
    by (auto simp: save_catalog_def write_text_def managed_paths node_at_def path_str_def
        split: option.splits node.splits)
  then have doc: "fs1 ''my-datalake/metadata/catalog.json'' = Some (File (json_dumps catalog))"
    by simp
  then have l: "load_catalog fs1 = Inr catalog"
    by (simp add: load_catalog_def read_text_def managed_paths node_at_def path_str_def
        loads_dumps [OF assms(1)])
  have "save_catalog catalog fs1 = (Inr (), fs1)"
    using doc fs1
    by (simp add: save_catalog_def write_text_def managed_paths node_at_def path_str_def)
  with l have "resave fs1 = (Inr (), fs1)"
    by (simp add: resave_def then_do_def lift_def)
  with doc l show ?thesis by simp
qed

theorem save_load_save_identical_witness:
  "wf_json (JObj [(''orders'', orders_entry), (''returns'', returns_entry)])
   \<and> fst (save_catalog (JObj [(''orders'', orders_entry), (''returns'', returns_entry)]) one_table)
       = Inr ()
   \<and> resave (snd (save_catalog (JObj [(''orders'', orders_entry), (''returns'', returns_entry)])
                    one_table))
       = (Inr (), snd (save_catalog (JObj [(''orders'', orders_entry), (''returns'', returns_entry)])
                    one_table))
   \<and> load_catalog (snd (save_catalog (JObj [(''orders'', orders_entry), (''returns'', returns_entry)])
                    one_table))
       = Inr (JObj [(''orders'', orders_entry), (''returns'', returns_entry)])"
proof -
  let ?c = "JObj [(''orders'', orders_entry), (''returns'', returns_entry)]"
  have w: "wf_json ?c" by code_simp
  have o: "fst (save_catalog ?c one_table) = Inr ()" by code_simp
  then have s: "save_catalog ?c one_table = (Inr (), snd (save_catalog ?c one_table))"
    by (cases "save_catalog ?c one_table") simp
  from save_load_save_identical [OF w s] w o show ?thesis by simp
qed

subsection \<open>The index and the file of a new table\<close>

lemma wf_items_update:
  "wf_json v \<Longrightarrow> wf_items al \<Longrightarrow> wf_items (AList.update k v al)"
  by (induction al) auto

lemma wf_items_append: "wf_items (xs @ ys) = (wf_items xs \<and> wf_items ys)"
  by (induction xs) auto

lemma wf_dict_fold:
  assumes "wf_items pairs" "wf_items acc" "distinct (map fst acc)"
  shows "wf_items (foldl (\<lambda>d kv. AList.update (fst kv) (snd kv) d) acc pairs)
     \<and> distinct (map fst (foldl (\<lambda>d kv. AList.update (fst kv) (snd kv) d) acc pairs))"
  using assms
proof (induction pairs arbitrary: acc)
  case Nil
  then show ?case by simp
next
  case (Cons kv pairs)
  then show ?case
    by (simp add: wf_items_update distinct_update)
qed

lemma wf_dict_of: "wf_items pairs \<Longrightarrow> wf_json (JObj (dict_of pairs))"
  using wf_dict_fold [of pairs "[]"] by (simp add: dict_of_def)

lemma scan_number_int: "scan_number s = Some (v, r) \<Longrightarrow> \<exists>i. v = JInt i"
  by (auto simp: scan_number_def split: list.splits option.splits if_splits)

lemma parsed_wf:
  "(\<forall>s v r. parse_value n s = Some (v, r) \<longrightarrow> wf_json v)
   \<and> (\<forall>s kvs r. parse_members n s = Some (kvs, r) \<longrightarrow> wf_items kvs)"
proof (induction n)
  case 0
  then show ?case by simp
next
  case (Suc n)
  have V: "wf_json v" if "parse_value n s = Some (v, r)" for s v r
    using Suc that by blast
  have M: "wf_items kvs" if "parse_members n s = Some (kvs, r)" for s kvs r
    using Suc that by blast
  have "wf_json v" if "parse_value (Suc n) s = Some (v, r)" for s v r
    using that scan_number_int [of s v r]
    by (auto split: list.splits option.splits if_splits intro: wf_dict_of elim: M V)
  moreover have "wf_items kvs" if "parse_members (Suc n) s = Some (kvs, r)" for s kvs r
    using that
    apply (auto split: list.splits option.splits if_splits)
       apply (rule V, assumption)
      apply (rule V, assumption)
     apply (rule V, assumption)
    apply (rule M, assumption)
    done
  ultimately show ?case by blast
qed

lemma loads_wf: "json_loads s = Inr v \<Longrightarrow> wf_json v"
  using parsed_wf [of "Suc (length s)", THEN conjunct1, rule_format, of "skip_ws s" v]
  by (auto simp: json_loads_def split: option.splits if_splits simp del: parse_value.simps)

lemma load_catalog_wf: "load_catalog fs = Inr v \<Longrightarrow> wf_json v"
  by (auto simp: load_catalog_def split: sum.splits dest: loads_wf)

lemma split_on_none: "sep \<notin> set s \<Longrightarrow> split_on sep s = [s]"
  by (induction s) (auto split: list.splits)

lemma Path_simple:
  assumes "CHR ''/'' \<notin> set s" "s \<noteq> []" "s \<noteq> ''.''"
  shows "Path s = ([], [s])"
proof -
  from assms have "takeWhile (\<lambda>c. c = CHR ''/'') s = []"
    by (cases s) auto
  with assms show ?thesis
    by (simp add: Path_def splitroot_def split_on_none)
qed

lemma digits_no_slash: "CHR ''/'' \<notin> set (digits n)"
  using digits_all_digit [of n] by (auto simp: is_digit_def)

lemma table_path:
  assumes "ext = ''.csv'' \<or> ext = ''.parquet'' \<or> ext = ''.description.md''"
  shows "path_join TABLES_DIR (digits n @ ext) = ([], [''my-datalake'', ''tables'', digits n @ ext])"
proof -
  have "Path (digits n @ ext) = ([], [digits n @ ext])"
  proof (rule Path_simple)
    show "CHR ''/'' \<notin> set (digits n @ ext)"
      using assms digits_no_slash [of n] by auto
    show "digits n @ ext \<noteq> []" using assms by auto
    show "digits n @ ext \<noteq> ''.''"
      using assms digits_not_empty [of n] by (cases "digits n") auto
  qed
  then show ?thesis by (simp add: path_join_def managed_paths)
qed

lemma table_path_str:
  assumes "ext = ''.csv'' \<or> ext = ''.parquet'' \<or> ext = ''.description.md''"
  shows "path_str (path_join TABLES_DIR (digits n @ ext)) = ''my-datalake/tables/'' @ digits n @ ext"
  using digits_not_empty [of n] by (simp add: table_path [OF assms] path_str_def)

lemma unpack_pair_string: "unpack_pair d = Inr schema \<Longrightarrow> \<exists>a. schema = JStr a"
  by (auto simp: unpack_pair_def split: json.splits list.splits)

lemma file_format_of_ok:
  "file_format_of ext = Inr fmt \<Longrightarrow> (ext = ''.csv'' \<and> fmt = ''csv'') \<or> (ext = ''.parquet'' \<and> fmt = ''parquet'')"
  by (auto simp: file_format_of_def split: if_splits)

lemma add_table_success:
  assumes "add_table reader run logical_name source_file_path description_path fs = (Inr (), fs')"
    and "catalog_of fs = Inr (JObj kvs)" and "logical_name \<notin> set (map fst kvs)"
  shows "\<exists>fs1 fs2 fs3 fmt a.
      ensure_structure fs = (Inr (), fs1) \<and> load_catalog fs1 = Inr (JObj kvs)
      \<and> file_format_of (lower (suffix (Path source_file_path))) = Inr fmt
      \<and> shutil_copy (Path source_file_path)
            (path_join TABLES_DIR (digits (length kvs) @ lower (suffix (Path source_file_path))))
            fs1 = (Inr (), fs2)
      \<and> (case description_path of
            Some d \<Rightarrow>
              if d \<noteq> []
              then shutil_copy (Path d)
                     (path_join TABLES_DIR (digits (length kvs) @ ''.description.md'')) fs2
              else (Inr (), fs2)
          | None \<Rightarrow> (Inr (), fs2)) = (Inr (), fs3)
      \<and> save_catalog
            (JObj (kvs @ [(logical_name,
               table_entry (length kvs) (lower (suffix (Path source_file_path)))
                 (truthy_path description_path) fmt (JStr a))])) fs3 = (Inr (), fs')"
proof -
  obtain r fs1 where e: "ensure_structure fs = (r, fs1)"
    by (cases "ensure_structure fs")
  with assms(2) obtain u where r: "r = Inr u" and l: "load_catalog fs1 = Inr (JObj kvs)"
    by (cases r) (simp_all add: catalog_of_def)
  from assms(1) e r l assms(3) show ?thesis
    by (auto simp: add_table_def then_do_def lift_def py_contains_def py_len_def Let_def
        py_setitem_def update_fresh_key
        split: prod.splits sum.splits if_splits dest!: unpack_pair_string)
qed

lemma write_text_ok:
  assumes "write_text p txt fs = (Inr (), fs')" "snd p \<noteq> []"
  shows "fs' = fs(path_str p \<mapsto> File txt) \<and> fs (path_str p) \<noteq> Some Dir"
  using assms
  by (auto simp: write_text_def node_at_def split: option.splits node.splits if_splits)

lemma write_text_root:
  assumes "write_text p txt fs = (Inr (), fs')"
  shows "snd p \<noteq> []"
  using assms by (auto simp: write_text_def node_at_def)

lemma split_on_no_sep: "x \<in> set (split_on sep s) \<Longrightarrow> sep \<notin> set x"
  by (induction s arbitrary: x) (auto split: list.splits if_splits)

lemma path_name_no_slash: "CHR ''/'' \<notin> set (path_name (Path d))"
proof (cases "snd (Path d) = []")
  case True
  then show ?thesis by (simp add: path_name_def)
next
  case False
  then have "last (snd (Path d)) \<in> set (snd (Path d))" by simp
  then have "last (snd (Path d)) \<in> set (split_on CHR ''/'' d)"
    by (simp add: Path_def)
  then show ?thesis
    using False by (simp add: path_name_def split_on_no_sep)
qed

lemma Path_no_slash:
  assumes "CHR ''/'' \<notin> set s"
  shows "fst (Path s) = [] \<and> (snd (Path s) = [] \<or> snd (Path s) = [s])"
proof -
  from assms have "takeWhile (\<lambda>c. c = CHR ''/'') s = []"
    by (cases s) auto
  with assms show ?thesis
    by (simp add: Path_def splitroot_def split_on_none)
qed

text \<open>Where a copy into the tables directory lands: at the target, or below it.\<close>

lemma shutil_copy_ok:
  assumes "shutil_copy (Path d) (path_join TABLES_DIR (digits n @ ext)) fs = (Inr (), fs')"
    and "ext = ''.csv'' \<or> ext = ''.parquet'' \<or> ext = ''.description.md''"
  shows "\<exists>txt q rest. fs (path_str (Path d)) = Some (File txt) \<and> snd (Path d) \<noteq> []
      \<and> fs' = fs(q \<mapsto> File txt) \<and> fs q \<noteq> Some Dir
      \<and> q = ''my-datalake/tables/'' @ digits n @ ext @ rest
      \<and> (fs (''my-datalake/tables/'' @ digits n @ ext) \<noteq> Some Dir \<longrightarrow> rest = [])"
proof -
  let ?dst = "path_join TABLES_DIR (digits n @ ext)"
  have dst: "?dst = ([], [''my-datalake'', ''tables'', digits n @ ext])"
    by (rule table_path [OF assms(2)])
  have dstr: "path_str ?dst = ''my-datalake/tables/'' @ digits n @ ext"
    by (rule table_path_str [OF assms(2)])
  define dst' where "dst' = (if node_at fs ?dst = Some Dir then path_join ?dst (path_name (Path d)) else ?dst)"
  from assms(1) obtain t where src: "node_at fs (Path d) = Some (File t)"
    and w: "write_text dst' t fs = (Inr (), fs')"
    by (auto simp: shutil_copy_def Let_def dst'_def split: if_splits option.splits node.splits)
  from src have s: "snd (Path d) \<noteq> []" "fs (path_str (Path d)) = Some (File t)"
    by (auto simp: node_at_def split: if_splits)
  from write_text_ok [OF w write_text_root [OF w]]
  have f: "fs' = fs(path_str dst' \<mapsto> File t)" "fs (path_str dst') \<noteq> Some Dir" by simp_all
  have "\<exists>rest. path_str dst' = ''my-datalake/tables/'' @ digits n @ ext @ rest
      \<and> (fs (''my-datalake/tables/'' @ digits n @ ext) \<noteq> Some Dir \<longrightarrow> rest = [])"
  proof (cases "node_at fs ?dst = Some Dir")
    case False
    then show ?thesis by (simp add: dst'_def dstr)
  next
    case True
    then have dir: "fs (''my-datalake/tables/'' @ digits n @ ext) = Some Dir"
      using dstr by (simp add: node_at_def dst)
    let ?name = "path_name (Path d)"
    have n: "fst (Path ?name) = []" "snd (Path ?name) = [] \<or> snd (Path ?name) = [?name]"
      using Path_no_slash [OF path_name_no_slash [of d]] by simp_all
    have "dst' = path_join ?dst ?name"
      using True by (simp add: dst'_def)
    then have "dst' = path_join ([], [''my-datalake'', ''tables'', digits n @ ext]) ?name"
      by (simp only: dst)
    then have "dst' = ([], [''my-datalake'', ''tables'', digits n @ ext] @ snd (Path ?name))"
      using n(1) by (simp add: path_join_def)
    with n(2) have "path_str dst' = ''my-datalake/tables/'' @ digits n @ ext
        \<or> path_str dst' = ''my-datalake/tables/'' @ digits n @ ext @ ''/'' @ ?name"
      by (auto simp: path_str_def)
    with dir show ?thesis by auto
  qed
  with s f show ?thesis by auto
qed

lemma ensure_structure_ok_dirs:
  assumes "ensure_structure fs = (Inr u, fs1)"
  shows "fs1 ''my-datalake/tables'' = Some Dir \<and> fs1 ''my-datalake/metadata'' = Some Dir
     \<and> fs1 ''my-datalake/metadata/catalog.json'' \<noteq> None"
proof -
  obtain r1 fsa where a: "mkdir_parents ([], [''my-datalake'', ''tables'']) fs = (r1, fsa)"
    by (cases "mkdir_parents ([], [''my-datalake'', ''tables'']) fs")
  obtain r2 fsb where b: "mkdir_parents ([], [''my-datalake'', ''metadata'']) fsa = (r2, fsb)"
    by (cases "mkdir_parents ([], [''my-datalake'', ''metadata'']) fsa")
  from assms a b obtain u1 u2 where r: "r1 = Inr u1" "r2 = Inr u2"
    by (cases r1; cases r2) (simp_all add: ensure_structure_steps)
  from a r have t: "fsa ''my-datalake/tables'' = Some Dir"
    using mkdir_two_ok [of "''my-datalake''" "''tables''" fs u1 fsa] by simp
  from b t have t2: "fsb ''my-datalake/tables'' = Some Dir"
    using mkdir_two_keeps [of "''my-datalake''" "''metadata''" fsa r2 fsb] by simp
  from b r have m: "fsb ''my-datalake/metadata'' = Some Dir"
    using mkdir_two_ok [of "''my-datalake''" "''metadata''" fsa u2 fsb] by simp
  from assms a b r t2 m show ?thesis
    by (auto simp: ensure_structure_steps split: if_splits)
qed

lemma ensure_structure_settled:
  assumes "fs ''my-datalake/tables'' = Some Dir" "fs ''my-datalake/metadata'' = Some Dir"
    and "fs ''my-datalake/metadata/catalog.json'' \<noteq> None"
  shows "ensure_structure fs = (Inr (), fs)"
proof -
  have "mkdir_parents ([], [''my-datalake'', ''tables'']) fs = (Inr (), fs)"
    using mkdir_two_dir [of "''my-datalake''" fs "''tables''"] assms by simp
  moreover have "mkdir_parents ([], [''my-datalake'', ''metadata'']) fs = (Inr (), fs)"
    using mkdir_two_dir [of "''my-datalake''" fs "''metadata''"] assms by simp
  ultimately show ?thesis using assms(3)
    by (auto simp: ensure_structure_steps)
qed

lemma table_entry_wf: "wf_json (table_entry n ext has_desc fmt (JStr a))"
  by (simp add: table_entry_def)

lemma map_of_new_key:
  "k \<notin> set (map fst kvs) \<Longrightarrow> map_of (kvs @ [(k, v)]) k = Some v"
  by (induction kvs) auto

lemma description_copy_ok:
  assumes "(case description_path of
            Some d \<Rightarrow>
              if d \<noteq> []
              then shutil_copy (Path d)
                     (path_join TABLES_DIR (digits n @ ''.description.md'')) fs2
              else (Inr (), fs2)
          | None \<Rightarrow> (Inr (), fs2)) = (Inr (), fs3)"
  shows "fs3 = fs2 \<or> (\<exists>t rest. fs3 = fs2(''my-datalake/tables/'' @ digits n @ ''.description.md'' @ rest \<mapsto> File t)
      \<and> fs2 (''my-datalake/tables/'' @ digits n @ ''.description.md'' @ rest) \<noteq> Some Dir)"
proof (cases description_path)
  case None
  with assms show ?thesis by simp
next
  case (Some d)
  show ?thesis
  proof (cases "d = []")
    case True
    with assms Some show ?thesis by simp
  next
    case False
    with assms Some have "shutil_copy (Path d)
        (path_join TABLES_DIR (digits n @ ''.description.md'')) fs2 = (Inr (), fs3)" by simp
    from shutil_copy_ok [OF this] show ?thesis by auto
  qed
qed

text \<open>
  C4. For every store whose catalog loads as a dictionary and every logical name not in it,
  a call of \<^verbatim>\<open>add_table\<close> that returns has given the new entry the index that was the
  size of the catalog before, and the file \<open>tables/<index><ext>\<close>, \<open><ext>\<close> being the
  suffix of the source path in lower case; the catalog afterwards is the old one with that
  entry at its end, the lookup of the name returns the entry, and the managed store holds
  the text of the source file at \<open>my-datalake/tables/<index><ext>\<close> (which must not have
  been a directory).
\<close>

theorem add_table_index:
  assumes "catalog_of fs = Inr (JObj kvs)" and "logical_name \<notin> set (map fst kvs)"
    and "add_table reader run logical_name source_file_path description_path fs = (Inr (), fs')"
    and "fs (''my-datalake/tables/'' @ digits (length kvs) @ lower (suffix (Path source_file_path)))
          \<noteq> Some Dir"
  shows "\<exists>entry t.
      catalog_of fs' = Inr (JObj (kvs @ [(logical_name, entry)]))
    \<and> get_table_meta logical_name fs' = Inr entry
    \<and> py_get entry ''index'' = Inr (JInt (int (length kvs)))
    \<and> py_get entry ''file''
        = Inr (JStr (''tables/'' @ digits (length kvs) @ lower (suffix (Path source_file_path))))
    \<and> snd (ensure_structure fs) (path_str (Path source_file_path)) = Some (File t)
    \<and> fs' (''my-datalake/tables/'' @ digits (length kvs) @ lower (suffix (Path source_file_path)))
        = Some (File t)"
proof -
  define ext where "ext = lower (suffix (Path source_file_path))"
  define n where "n = length kvs"
  from add_table_success [OF assms(3,1,2)] obtain fs1 fs2 fs3 fmt a where
    e: "ensure_structure fs = (Inr (), fs1)" and l: "load_catalog fs1 = Inr (JObj kvs)"
    and ff: "file_format_of ext = Inr fmt"
    and cp: "shutil_copy (Path source_file_path) (path_join TABLES_DIR (digits n @ ext)) fs1
              = (Inr (), fs2)"
    and dc: "(case description_path of
            Some d \<Rightarrow>
              if d \<noteq> []
              then shutil_copy (Path d)
                     (path_join TABLES_DIR (digits n @ ''.description.md'')) fs2
              else (Inr (), fs2)
          | None \<Rightarrow> (Inr (), fs2)) = (Inr (), fs3)"
    and sv: "save_catalog (JObj (kvs @ [(logical_name,
               table_entry n ext (truthy_path description_path) fmt (JStr a))])) fs3 = (Inr (), fs')"
    unfolding ext_def n_def by blast
  define entry where "entry = table_entry n ext (truthy_path description_path) fmt (JStr a)"
  define dst where "dst = ''my-datalake/tables/'' @ digits n @ ext"
  have x: "ext = ''.csv'' \<or> ext = ''.parquet''"
    using file_format_of_ok [OF ff] by auto
  note d1 = ensure_structure_ok_dirs [OF e]
  have new: "fs1 dst \<noteq> Some Dir"
  proof (cases "fs dst")
    case None
    show ?thesis
    proof
      assume "fs1 dst = Some Dir"
      with ensure_structure_new [OF e None] show False
        by (simp add: dst_def)
    qed
  next
    case (Some nd)
    with ensure_structure_keeps [OF e Some] assms(4) show ?thesis
      by (simp add: dst_def ext_def n_def)
  qed
  from shutil_copy_ok [OF cp] x new obtain t where
    src: "fs1 (path_str (Path source_file_path)) = Some (File t)"
    and fs2: "fs2 = fs1(dst \<mapsto> File t)"
    by (auto simp: dst_def)
  from description_copy_ok [OF dc] have fs3: "fs3 dst = Some (File t)
      \<and> fs3 ''my-datalake/tables'' = Some Dir \<and> fs3 ''my-datalake/metadata'' = Some Dir"
    using fs2 d1 new x by (auto simp: dst_def)
  from sv have fs': "fs' = fs3(''my-datalake/metadata/catalog.json'' \<mapsto>
      File (json_dumps (JObj (kvs @ [(logical_name, entry)]))))"
    by (auto simp: save_catalog_def write_text_def managed_paths node_at_def path_str_def entry_def
        split: option.splits node.splits)
  have wf: "wf_json (JObj (kvs @ [(logical_name, entry)]))"
    using load_catalog_wf [OF l] assms(2)
    by (simp add: wf_items_append entry_def table_entry_wf)
  have lc: "load_catalog fs' = Inr (JObj (kvs @ [(logical_name, entry)]))"
    by (simp add: fs' load_catalog_def read_text_def managed_paths node_at_def path_str_def
        loads_dumps [OF wf])
  have "ensure_structure fs' = (Inr (), fs')"
    using fs3 by (intro ensure_structure_settled) (simp_all add: fs')
  with lc have c: "catalog_of fs' = Inr (JObj (kvs @ [(logical_name, entry)]))"
    by (simp add: catalog_of_def)
  have m: "map_of (kvs @ [(logical_name, entry)]) logical_name = Some entry"
    using assms(2) by (rule map_of_new_key)
  have "truthy entry" by (simp add: entry_def table_entry_def)
  with lc m have g: "get_table_meta logical_name fs' = Inr entry"
    by (simp add: get_table_meta_def py_get_def)
  have i: "py_get entry ''index'' = Inr (JInt (int n))"
    and f: "py_get entry ''file'' = Inr (JStr (''tables/'' @ digits n @ ext))"
    by (simp_all add: entry_def table_entry_def py_get_def)
  have "fs' dst = Some (File t)"
    using fs3 x by (auto simp: fs' dst_def)
  with c g i f src e show ?thesis
    unfolding dst_def n_def ext_def by auto
qed

theorem add_table_index_witness:
  "catalog_of fresh = Inr (JObj [])
   \<and> fst (add_table two_columns git_ok ''orders'' ''orders.csv'' None fresh) = Inr ()
   \<and> get_table_meta ''orders'' one_table
       = Inr (JObj [(''index'', JInt 0), (''file'', JStr ''tables/0.csv''),
                    (''description_file'', JNull), (''format'', JStr ''csv''),
                    (''schema'', JStr ''id'')])
   \<and> catalog_of one_table = Inr (JObj [(''orders'', orders_entry)])
   \<and> ''returns'' \<notin> set (map fst [(''orders'', orders_entry)])
   \<and> add_table two_columns git_ok ''returns'' ''returns.parquet'' None one_table
       = (Inr (), two_tables)
   \<and> one_table ''my-datalake/tables/1.parquet'' \<noteq> Some Dir
   \<and> (\<exists>entry. get_table_meta ''returns'' two_tables = Inr entry
         \<and> py_get entry ''index'' = Inr (JInt 1)
         \<and> py_get entry ''file'' = Inr (JStr ''tables/1.parquet''))
   \<and> two_tables ''my-datalake/tables/1.parquet'' = Some (File ''PAR1'')"
proof -
  have c0: "catalog_of fresh = Inr (JObj [])" by code_simp
  have a0: "fst (add_table two_columns git_ok ''orders'' ''orders.csv'' None fresh) = Inr ()"
    by code_simp
  have g0: "get_table_meta ''orders'' one_table
       = Inr (JObj [(''index'', JInt 0), (''file'', JStr ''tables/0.csv''),
                    (''description_file'', JNull), (''format'', JStr ''csv''),
                    (''schema'', JStr ''id'')])"
    by code_simp
  have c: "catalog_of one_table = Inr (JObj [(''orders'', orders_entry)])" by code_simp
  have n: "''returns'' \<notin> set (map fst [(''orders'', orders_entry)])" by simp
  have "fst (add_table two_columns git_ok ''returns'' ''returns.parquet'' None one_table) = Inr ()"
    by code_simp
  then have a: "add_table two_columns git_ok ''returns'' ''returns.parquet'' None one_table
       = (Inr (), two_tables)"
    by (cases "add_table two_columns git_ok ''returns'' ''returns.parquet'' None one_table")
       (simp add: two_tables_def)
  have p: "''my-datalake/tables/'' @ digits (length [(''orders'', orders_entry)])
        @ lower (suffix (Path ''returns.parquet'')) = ''my-datalake/tables/1.parquet''"
    by code_simp
  have q: "''tables/'' @ digits (length [(''orders'', orders_entry)])
        @ lower (suffix (Path ''returns.parquet'')) = ''tables/1.parquet''"
    by code_simp
  have d: "one_table ''my-datalake/tables/1.parquet'' \<noteq> Some Dir" by code_simp
  have f: "two_tables ''my-datalake/tables/1.parquet'' = Some (File ''PAR1'')" by code_simp
  from d p have d': "one_table (''my-datalake/tables/'' @ digits (length [(''orders'', orders_entry)])
        @ lower (suffix (Path ''returns.parquet''))) \<noteq> Some Dir"
    by simp
  from add_table_index [OF c n a d'] obtain entry where
    "get_table_meta ''returns'' two_tables = Inr entry"
    "py_get entry ''index'' = Inr (JInt (int (length [(''orders'', orders_entry)])))"
    "py_get entry ''file'' = Inr (JStr (''tables/'' @ digits (length [(''orders'', orders_entry)])
        @ lower (suffix (Path ''returns.parquet''))))"
    by blast
  then have "\<exists>entry. get_table_meta ''returns'' two_tables = Inr entry
         \<and> py_get entry ''index'' = Inr (JInt 1)
         \<and> py_get entry ''file'' = Inr (JStr ''tables/1.parquet'')"
    unfolding q by simp
  with c0 a0 g0 c n a d f show ?thesis by blast
qed

subsection \<open>The schema stored by the registrar\<close>

text \<open>
  C3. The schema inferencer returns the mapping from column names to type names, but
  \<^verbatim>\<open>add_table\<close> unpacks that mapping as a pair. For a file with the two columns \<open>id\<close> and
  \<open>name\<close> the registration succeeds and the entry's \<open>schema\<close> is the string \<open>id\<close>, the
  name of the first column, not the mapping; for a file with three columns the
  registration fails with a \<^verbatim>\<open>ValueError\<close>, after the file has been copied.
\<close>

theorem add_table_schema_is_first_column_name:
  "infer_schema two_columns (Path ''orders.csv'') ''csv'' fresh
     = Inr (JObj [(''id'', JStr ''BIGINT''), (''name'', JStr ''VARCHAR'')])
   \<and> fst (add_table two_columns git_ok ''orders'' ''orders.csv'' None fresh) = Inr ()
   \<and> get_table_meta ''orders'' (snd (add_table two_columns git_ok ''orders'' ''orders.csv'' None fresh))
       = Inr (JObj [(''index'', JInt 0), (''file'', JStr ''tables/0.csv''),
                    (''description_file'', JNull), (''format'', JStr ''csv''),
                    (''schema'', JStr ''id'')])
   \<and> fst (add_table three_columns git_ok ''orders'' ''orders.csv'' None fresh)
       = Inl (ValueError ''too many values to unpack (expected 2)'')
   \<and> snd (add_table three_columns git_ok ''orders'' ''orders.csv'' None fresh)
         ''my-datalake/tables/0.csv'' = Some (File ''id,name'')"
  by code_simp

subsection \<open>A version-control tool that cannot be started\<close>

text \<open>
  C7. \<^verbatim>\<open>git_commit\<close> recovers from a non-zero exit status only. When the tool cannot be
  started (there is no \<^verbatim>\<open>git\<close> executable), \<^verbatim>\<open>subprocess.run\<close> raises
  \<^verbatim>\<open>FileNotFoundError\<close>, which the handler does not catch: \<^verbatim>\<open>add_table\<close> raises it to
  its caller, after the catalog has been persisted. A tool that exits with status 128 is
  recovered from, and the registration returns normally.
\<close>

theorem add_table_git_missing_raises:
  "fst (add_table two_columns git_missing ''orders'' ''orders.csv'' None fresh) = Inl FileNotFoundError
   \<and> load_catalog (snd (add_table two_columns git_missing ''orders'' ''orders.csv'' None fresh))
       = Inr (JObj [(''orders'', orders_entry)])
   \<and> fst (add_table two_columns git_no_repository ''orders'' ''orders.csv'' None fresh) = Inr ()"
  by code_simp

subsection \<open>Metadata lookup on a fresh system\<close>

text \<open>
  C8. \<^verbatim>\<open>load_catalog\<close> does not create a missing document; \<^verbatim>\<open>ensure_structure\<close>
  does, and \<^verbatim>\<open>get_table_meta\<close> is the one operation that does not call it first. On a
  system with no catalog document the lookup fails with \<^verbatim>\<open>FileNotFoundError\<close>, where a
  query on the same system sets the structure up and goes through, and where the lookup
  behind \<^verbatim>\<open>ensure_structure\<close> reports that the table was not found.
\<close>

theorem get_table_meta_fresh_system:
  "get_table_meta ''orders'' Map.empty = Inl FileNotFoundError
   \<and> fst (query_sql echo_engine no_template [] ''SELECT 1'' Map.empty) = Inr ''SELECT 1''
   \<and> get_table_meta ''orders'' (snd (ensure_structure Map.empty))
       = Inl (ValueError (''Table '' @ quoted ''orders'' @ '' not found''))"
  by code_simp

end
